theory Spec2Isabelle
  imports Complex_Main "HOL-Library.Sublist" "HOL-Library.Multiset" "HOL-Library.Char_ord"
    "HOL-Library.List_Lexorder" "HOL-Library.Product_Lexorder" "HOL-Library.Option_ord"
begin

section \<open>Machine integers of the alignment code\<close>

text \<open>
  \<open>AlignmentModel.cpp\<close> mixes \<open>size_t\<close> (the query frames and the results) with
  \<open>long\<close> (the path coordinates). Both are 64 bits wide on the platforms the code is
  built for. A \<open>size_t\<close> is a \<open>nat\<close> below \<open>2 ^ 64\<close>, a \<open>long\<close> an \<open>int\<close>;
  the two conversions the code performs are written out.
\<close>

definition to_long :: "nat \<Rightarrow> int" where
  "to_long n = (let m = int (n mod 2 ^ 64) in if m < 2 ^ 63 then m else m - 2 ^ 64)"

definition to_size_t :: "int \<Rightarrow> nat" where
  "to_size_t i = nat (i mod 2 ^ 64)"

text \<open>
  Arithmetic within one 64-bit type, on the integer the operands give: \<open>ulong\<close> is the
  result as an \<open>unsigned long\<close>, \<open>slong\<close> the result as a \<open>long\<close> (or \<open>sv_frame_t\<close>),
  with its wrap-around.
\<close>

definition ulong :: "int \<Rightarrow> int" where
  "ulong i = i mod 2 ^ 64"

definition slong :: "int \<Rightarrow> int" where
  "slong i = (let m = i mod 2 ^ 64 in if m < 2 ^ 63 then m else m - 2 ^ 64)"

section \<open>Single-precision arithmetic\<close>

text \<open>
  A \<open>float\<close> is modelled by the rational number it holds. Comparisons and \<open>lrintf\<close> are
  exact on such values; the operations that round their result (the conversion of an
  integer, the product, the quotient) are parameters, collected with the functions of the
  Vamp SDK and the double-precision frame arithmetic in \<open>float_ops\<close>. \<open>float_of_long\<close>
  is the conversion of a 64-bit integer, signed or unsigned, given by its value.
\<close>

record RealTime =
  sec :: int
  nsec :: int

record float_ops =
  realTime2Frame :: "RealTime \<Rightarrow> nat \<Rightarrow> int"
  float_of_long :: "int \<Rightarrow> rat"
  fdiv :: "rat \<Rightarrow> rat \<Rightarrow> rat"
  fmul :: "rat \<Rightarrow> rat \<Rightarrow> rat"
  fixedRateNo :: "RealTime \<Rightarrow> rat \<Rightarrow> int"
  fixedRateFrame :: "int \<Rightarrow> rat \<Rightarrow> nat \<Rightarrow> int"

text \<open>\<open>lrintf\<close>: to the nearest integer, ties to even (the default rounding mode).\<close>

definition lrintf :: "rat \<Rightarrow> int" where
  "lrintf x =
     (let fl = \<lfloor>x\<rfloor>; d = x - of_int fl in
      if d < 1 / 2 then fl else if d > 1 / 2 then fl + 1 else if even fl then fl else fl + 1)"

text \<open>
  Float operations without rounding, for runs on values that single precision holds
  exactly, with \<open>realTime2Frame\<close> on whole seconds.
\<close>

definition exact_ops :: float_ops where
  "exact_ops = \<lparr>realTime2Frame = (\<lambda>rt rate. (sec rt * 1000000000 + nsec rt) * int rate div 1000000000),
                 float_of_long = of_int, fdiv = (\<lambda>a b. a / b), fmul = (\<lambda>a b. a * b),
                 fixedRateNo = (\<lambda>rt r. lrintf ((of_int (sec rt) + of_int (nsec rt) / 1000000000) * r)),
                 fixedRateFrame = (\<lambda>no r rate. lrintf (of_int no / r * of_nat rate))\<rparr>"

section \<open>PathModel and the raw path\<close>

text \<open>\<open>struct PathPoint\<close> of \<open>PathModel.h\<close>.\<close>

record PathPoint =
  frame :: int
  mapframe :: int

text \<open>
  \<open>struct TimeValuePoint\<close>. The \<open>float\<close> value is kept abstract (type \<open>'v\<close>): the
  only thing the alignment code does with it is \<open>lrintf(value * rate)\<close>, which enters the
  model as the parameter \<open>rf\<close> of \<open>constructPath\<close>.
\<close>

record 'v TimeValuePoint =
  tv_frame :: int
  tv_value :: 'v
  tv_label :: string

text \<open>
  What the alignment model reads of its raw path, a \<open>SparseTimeValueModel\<close>: the points
  in iteration order, the completion percentage and \<open>isOK()\<close>.
\<close>

record 'v SparseTimeValueModel =
  stv_points :: "'v TimeValuePoint list"
  stv_completion :: int
  stv_ok :: bool

text \<open>\<open>Model::isReady\<close> of \<open>Model.h\<close>, returning the pair (ready, completion).\<close>

definition Model_isReady :: "'v SparseTimeValueModel \<Rightarrow> bool \<times> int" where
  "Model_isReady m =
     (let c = stv_completion m in if \<not> stv_ok m then (False, c) else (c = 100, c))"

text \<open>
  Modelled from the spec: \<open>SparseModel<PathPoint>::addPoint\<close> (SparseModel.h is not among
  the sources). The spec says that both paths are kept sorted by the first coordinate; the
  point list is a \<open>std::multiset\<close> ordered by \<open>PathPoint::OrderComparator\<close>, into which an
  insertion goes after the elements that compare equal.
\<close>

fun addPoint :: "PathPoint \<Rightarrow> PathPoint list \<Rightarrow> PathPoint list" where
  "addPoint p [] = [p]"
| "addPoint p (x # xs) = (if frame p < frame x then p # x # xs else x # addPoint p xs)"

section \<open>AlignmentModel\<close>

record 'v AlignmentModel =
  m_inputModel :: bool
  m_rawPath :: "'v SparseTimeValueModel option"
  m_path :: "PathPoint list option"
  m_reversePath :: "PathPoint list option"
  m_pathBegun :: bool
  m_pathComplete :: bool

text \<open>
  The loop of \<open>constructPath\<close> / \<open>constructReversePath\<close>: the path is cleared and every
  raw point is added, as \<open>(frame, rframe)\<close> or as \<open>(rframe, frame)\<close>, where
  \<open>rframe = lrintf(value * m_aligned->getSampleRate())\<close> is \<open>rf value\<close>.
\<close>

definition fillPath :: "('v \<Rightarrow> int) \<Rightarrow> 'v TimeValuePoint list \<Rightarrow> PathPoint list" where
  "fillPath rf points =
     foldl (\<lambda>path i. addPoint \<lparr>frame = tv_frame i, mapframe = rf (tv_value i)\<rparr> path) [] points"

definition fillReversePath :: "('v \<Rightarrow> int) \<Rightarrow> 'v TimeValuePoint list \<Rightarrow> PathPoint list" where
  "fillReversePath rf points =
     foldl (\<lambda>path i. addPoint \<lparr>frame = rf (tv_value i), mapframe = tv_frame i\<rparr> path) [] points"

definition constructPath :: "('v \<Rightarrow> int) \<Rightarrow> 'v AlignmentModel \<Rightarrow> 'v AlignmentModel" where
  "constructPath rf am =
     (case m_rawPath am of
        None \<Rightarrow> am
      | Some raw \<Rightarrow> am\<lparr>m_path := Some (fillPath rf (stv_points raw))\<rparr>)"

definition constructReversePath :: "('v \<Rightarrow> int) \<Rightarrow> 'v AlignmentModel \<Rightarrow> 'v AlignmentModel" where
  "constructReversePath rf am =
     (case m_rawPath am of
        None \<Rightarrow> am
      | Some raw \<Rightarrow> am\<lparr>m_reversePath := Some (fillReversePath rf (stv_points raw))\<rparr>)"

text \<open>The constructor; the model pointers that play no part in the mapping are left out.\<close>

definition AlignmentModel_new ::
  "('v \<Rightarrow> int) \<Rightarrow> bool \<Rightarrow> 'v SparseTimeValueModel option \<Rightarrow> 'v AlignmentModel" where
  "AlignmentModel_new rf inputModel path =
     constructReversePath rf (constructPath rf
       \<lparr>m_inputModel = inputModel, m_rawPath = path, m_path = None, m_reversePath = None,
        m_pathBegun = False, m_pathComplete = False\<rparr>)"

text \<open>\<open>AlignmentModel::isReady\<close>, returning (ready, completion).\<close>

definition isReady :: "'v AlignmentModel \<Rightarrow> bool \<times> int" where
  "isReady am =
     (if \<not> m_pathBegun am then (False, 0)
      else case m_rawPath am of
             None \<Rightarrow> (True, 100)
           | Some raw \<Rightarrow> if m_pathComplete am then (True, 100) else Model_isReady raw)"

text \<open>The three slots connected to the raw path's signals.\<close>

definition pathChanged :: "'v AlignmentModel \<Rightarrow> 'v AlignmentModel" where
  "pathChanged am = (if m_pathComplete am then am\<lparr>m_rawPath := None\<rparr> else am)"

definition pathChangedWithin :: "('v \<Rightarrow> int) \<Rightarrow> 'v AlignmentModel \<Rightarrow> 'v AlignmentModel" where
  "pathChangedWithin rf am =
     (if \<not> m_pathComplete am then am else constructReversePath rf (constructPath rf am))"

definition pathCompletionChanged :: "('v \<Rightarrow> int) \<Rightarrow> 'v AlignmentModel \<Rightarrow> 'v AlignmentModel" where
  "pathCompletionChanged rf am =
     (case m_rawPath am of
        None \<Rightarrow> am
      | Some raw \<Rightarrow>
          let am1 = am\<lparr>m_pathBegun := True\<rparr> in
          if \<not> m_pathComplete am1 then
            let completion = snd (Model_isReady raw);
                am2 = am1\<lparr>m_pathComplete := (completion = 100)\<rparr>
            in if m_pathComplete am2
               then (constructReversePath rf (constructPath rf am2))\<lparr>m_inputModel := False\<rparr>
               else am2
          else am1)"

subsection \<open>The mapping\<close>

text \<open>
  \<open>points.lower_bound(point)\<close> under \<open>OrderComparator\<close>: the index of the first point
  whose frame is not less than the query's.
\<close>

fun points_lower_bound :: "PathPoint list \<Rightarrow> int \<Rightarrow> nat" where
  "points_lower_bound [] q = 0"
| "points_lower_bound (x # xs) q = (if frame x < q then Suc (points_lower_bound xs q) else 0)"

text \<open>\<open>while (i != points.begin() && i->frame > long(frame)) --i;\<close>\<close>

fun step_back :: "PathPoint list \<Rightarrow> int \<Rightarrow> nat \<Rightarrow> nat" where
  "step_back points q 0 = 0"
| "step_back points q (Suc i) =
     (if frame (points ! Suc i) > q then step_back points q i else Suc i)"

text \<open>
  \<open>AlignmentModel::align\<close>. \<open>frame - foundFrame\<close> is formed in \<open>size_t\<close>, the other two
  differences in \<open>long\<close>; each is converted to \<open>float\<close>, and the quotient and the product
  are single-precision operations. The sum \<open>resultFrame += ...\<close> is formed in \<open>size_t\<close>,
  so it wraps.
\<close>

definition align :: "float_ops \<Rightarrow> PathPoint list option \<Rightarrow> nat \<Rightarrow> nat" where
  "align fo path frame' =
     (case path of
        None \<Rightarrow> frame'
      | Some points \<Rightarrow>
          if points = [] then frame'
          else
            let i0 = points_lower_bound points (to_long frame');
                i1 = (if i0 = length points then i0 - 1 else i0);
                i = step_back points (to_long frame') i1;
                foundFrame = frame (points ! i);
                foundMapFrame = mapframe (points ! i);
                followingFrame = (if Suc i \<noteq> length points then frame (points ! Suc i) else foundFrame);
                followingMapFrame =
                  (if Suc i \<noteq> length points then mapframe (points ! Suc i) else foundMapFrame)
            in if foundMapFrame < 0 then 0
               else if followingFrame \<noteq> foundFrame \<and> to_long frame' > foundFrame
               then
                 let interp = fdiv fo (float_of_long fo (int (to_size_t (int frame' - foundFrame))))
                                      (float_of_long fo (slong (followingFrame - foundFrame)))
                 in to_size_t (foundMapFrame +
                      lrintf (fmul fo (float_of_long fo (slong (followingMapFrame - foundMapFrame)))
                                interp))
               else to_size_t foundMapFrame)"

text \<open>
  \<open>toReference\<close> and \<open>fromReference\<close> are \<open>const\<close> but build the (mutable) path on first
  use; the model returns the result together with the updated object.
\<close>

definition toReference ::
  "('v \<Rightarrow> int) \<Rightarrow> float_ops \<Rightarrow> 'v AlignmentModel \<Rightarrow> nat \<Rightarrow> nat \<times> 'v AlignmentModel" where
  "toReference rf fo am frame' =
     (if m_path am = None then
        (if m_rawPath am = None then (frame', am)
         else let am' = constructPath rf am in (align fo (m_path am') frame', am'))
      else (align fo (m_path am) frame', am))"

definition fromReference ::
  "('v \<Rightarrow> int) \<Rightarrow> float_ops \<Rightarrow> 'v AlignmentModel \<Rightarrow> nat \<Rightarrow> nat \<times> 'v AlignmentModel" where
  "fromReference rf fo am frame' =
     (if m_reversePath am = None then
        (if m_rawPath am = None then (frame', am)
         else let am' = constructReversePath rf am in (align fo (m_reversePath am') frame', am'))
      else (align fo (m_reversePath am) frame', am))"

subsection \<open>The mapping as the specification words it\<close>

text \<open>
  The specification's mapping algorithm: an entry \<open>(q0, m0)\<close> whose frame is the greatest
  frame not above \<open>q\<close>, and the next entry \<open>(q1, m1)\<close>. The answer is 0 if \<open>m0\<close> is
  negative, \<open>m0\<close> if there is no next entry or \<open>q = q0\<close> or \<open>q1 = q0\<close>, and else
  \<open>m0 + round((m1 - m0) * (q - q0) / (q1 - q0))\<close>. Where several entries share the
  greatest frame the specification does not say which of them is meant: \<open>spec_align\<close>
  lists the answer for each, in path order.
\<close>

definition spec_answer :: "int \<Rightarrow> PathPoint \<Rightarrow> PathPoint option \<Rightarrow> int" where
  "spec_answer q p nxt =
     (let q0 = frame p; m0 = mapframe p in
      if m0 < 0 then 0
      else case nxt of
             None \<Rightarrow> m0
           | Some n \<Rightarrow>
               if q = q0 \<or> frame n = q0 then m0
               else m0 + round (of_int ((mapframe n - m0) * (q - q0)) / of_int (frame n - q0) :: rat))"

definition spec_align :: "PathPoint list \<Rightarrow> int \<Rightarrow> int list" where
  "spec_align points q =
     map (\<lambda>(p, nxt). spec_answer q p nxt)
       (filter (\<lambda>(p, nxt). frame p \<le> q \<and>
                  list_all (\<lambda>x. frame x \<le> q \<longrightarrow> frame x \<le> frame p) points)
          (zip points (map Some (tl points) @ [None])))"

text \<open>The coordinates of a path are \<open>long\<close> values.\<close>

definition long_range :: "PathPoint list \<Rightarrow> bool" where
  "long_range points = (\<forall>p\<in>set points. - (2 ^ 63) \<le> frame p \<and> frame p < 2 ^ 63 \<and> - (2 ^ 63) \<le> mapframe p \<and> mapframe p < 2 ^ 63)"

text \<open>
  A raw path with a plateau: the frames 0 and 1 of the aligned model both map to frame 0
  of the reference (the value type is instantiated with the rounded target frame itself).
\<close>

definition plateau :: "int SparseTimeValueModel" where
  "plateau = \<lparr>stv_points = [\<lparr>tv_frame = 0, tv_value = 0, tv_label = ''''\<rparr>,
                             \<lparr>tv_frame = 1, tv_value = 0, tv_label = ''''\<rparr>,
                             \<lparr>tv_frame = 2, tv_value = 3, tv_label = ''''\<rparr>],
               stv_completion = 100, stv_ok = True\<rparr>"

section \<open>Readiness\<close>

text \<open>
  The raw path reaches the alignment model only through its three signals; a run of the
  model is a sequence of slot deliveries.
\<close>

datatype slot = PathChanged | PathChangedWithin | PathCompletionChanged

fun deliver :: "('v \<Rightarrow> int) \<Rightarrow> 'v AlignmentModel \<Rightarrow> slot \<Rightarrow> 'v AlignmentModel" where
  "deliver rf am PathChanged = pathChanged am"
| "deliver rf am PathChangedWithin = pathChangedWithin rf am"
| "deliver rf am PathCompletionChanged = pathCompletionChanged rf am"

lemma deliver_no_raw_path:
  "m_rawPath am = None \<Longrightarrow> \<not> m_pathBegun am \<Longrightarrow>
   m_rawPath (deliver rf am s) = None \<and> \<not> m_pathBegun (deliver rf am s)"
  by (cases s)
     (simp_all add: pathChanged_def pathChangedWithin_def pathCompletionChanged_def
        constructPath_def constructReversePath_def)

lemma deliveries_no_raw_path:
  "m_rawPath am = None \<Longrightarrow> \<not> m_pathBegun am \<Longrightarrow>
   m_rawPath (foldl (deliver rf) am ss) = None \<and> \<not> m_pathBegun (foldl (deliver rf) am ss)"
proof (induction ss arbitrary: am)
  case Nil
  then show ?case by simp
next
  case (Cons s ss)
  from deliver_no_raw_path [OF Cons.prems]
  have "m_rawPath (deliver rf am s) = None" and "\<not> m_pathBegun (deliver rf am s)"
    by simp_all
  from Cons.IH [OF this] show ?case by simp
qed

text \<open>
  Claim C5, evaluated on the code. An alignment model constructed with a null raw path is
  never ready: \<open>m_pathBegun\<close> is set only by \<open>pathCompletionChanged\<close>, which returns at
  once when there is no raw path, so the first test of \<open>isReady\<close> answers \<open>false\<close> with
  completion 0 whatever signals arrive. The branch \<open>m_pathComplete || !m_rawPath\<close> that
  would answer \<open>true\<close> is not reached.
\<close>

theorem C5_null_raw_path_never_ready:
  "isReady (foldl (deliver rf) (AlignmentModel_new rf inp None) ss) = (False, 0)"
proof -
  have "m_rawPath (AlignmentModel_new rf inp None) = None"
    and "\<not> m_pathBegun (AlignmentModel_new rf inp None)"
    by (simp_all add: AlignmentModel_new_def constructPath_def constructReversePath_def)
  from deliveries_no_raw_path [OF this, of rf ss] show ?thesis
    by (simp add: isReady_def)
qed

section \<open>The mapping algorithm\<close>

lemma to_long_small: "q < 2 ^ 63 \<Longrightarrow> to_long q = int q"
  by (simp add: to_long_def Let_def)

lemma to_size_t_small: "0 \<le> i \<Longrightarrow> i < 2 ^ 64 \<Longrightarrow> to_size_t i = nat i"
  by (simp add: to_size_t_def)

lemma points_lower_bound_append:
  "\<forall>x\<in>set pre. frame x < q \<Longrightarrow> points_lower_bound (pre @ rest) q = length pre + points_lower_bound rest q"
  by (induction pre) auto

lemma points_lower_bound_all_less:
  "\<forall>x\<in>set xs. frame x < q \<Longrightarrow> points_lower_bound xs q = length xs"
  using points_lower_bound_append [of xs q "[]"] by simp

lemma step_back_stay:
  "i = 0 \<or> \<not> frame (points ! i) > q \<Longrightarrow> step_back points q i = i"
  by (cases i) auto

lemma step_back_once:
  "frame (points ! Suc i) > q \<Longrightarrow> i = 0 \<or> \<not> frame (points ! i) > q \<Longrightarrow> step_back points q (Suc i) = i"
  by (simp add: step_back_stay)

lemma slong_sv_frame: "- (2 ^ 63) \<le> i \<Longrightarrow> i < 2 ^ 63 \<Longrightarrow> slong i = i"
proof (cases "0 \<le> i")
  case True
  assume "i < 2 ^ 63"
  with True have "i mod 2 ^ 64 = i" by simp
  with \<open>i < 2 ^ 63\<close> show ?thesis by (simp add: slong_def)
next
  case False
  assume l: "- (2 ^ 63) \<le> i"
  have a: "0 \<le> i + 2 ^ 64" using l by simp
  have b: "i + 2 ^ 64 < 2 ^ 64" using False by simp
  have "(i + 2 ^ 64) mod 2 ^ 64 = i + 2 ^ 64" by (rule mod_pos_pos_trivial [OF a b])
  moreover have "(i + 2 ^ 64) mod 2 ^ 64 = i mod 2 ^ 64" by (rule mod_add_self2)
  ultimately have "i mod 2 ^ 64 = i + 2 ^ 64" by (simp only:)
  with l show ?thesis by (simp add: slong_def)
qed

lemma align_found:
  assumes "points \<noteq> []" and "q < 2 ^ 63"
    and "points_lower_bound points (int q) = lb"
    and "step_back points (int q) (if lb = length points then lb - 1 else lb) = i"
  shows "align fo (Some points) q =
     (if mapframe (points ! i) < 0 then 0
      else if Suc i \<noteq> length points \<and> frame (points ! Suc i) \<noteq> frame (points ! i)
              \<and> int q > frame (points ! i)
      then to_size_t (mapframe (points ! i) +
             lrintf (fmul fo
               (float_of_long fo (slong (mapframe (points ! Suc i) - mapframe (points ! i))))
               (fdiv fo (float_of_long fo (int (to_size_t (int q - frame (points ! i)))))
                        (float_of_long fo (slong (frame (points ! Suc i) - frame (points ! i)))))))
      else to_size_t (mapframe (points ! i)))"
  using assms by (simp add: align_def to_long_small Let_def)

lemma align_at_first_equal:
  assumes "points = pre @ p # post" and "\<forall>x\<in>set pre. frame x < int q" and "frame p = int q"
    and "q < 2 ^ 63" and "mapframe p < 2 ^ 64"
  shows "align fo (Some points) q = (if mapframe p < 0 then 0 else nat (mapframe p))"
proof -
  have ne: "points \<noteq> []" using assms(1) by simp
  have lb: "points_lower_bound points (int q) = length pre"
    using assms(1-3) by (simp add: points_lower_bound_append)
  have nth: "points ! length pre = p" using assms(1) by simp
  have neq: "length pre \<noteq> length points" using assms(1) by simp
  have sb: "step_back points (int q) (if length pre = length points then length pre - 1 else length pre) = length pre"
    using neq by (simp add: step_back_stay nth assms(3))
  show ?thesis
    unfolding align_found [OF ne assms(4) lb sb]
    using assms(3,5) by (simp add: nth to_size_t_small)
qed

lemma align_past_last:
  assumes "points = pre @ [p]" and "\<forall>x\<in>set points. frame x < int q"
    and "q < 2 ^ 63" and "mapframe p < 2 ^ 64"
  shows "align fo (Some points) q = (if mapframe p < 0 then 0 else nat (mapframe p))"
proof -
  have ne: "points \<noteq> []" using assms(1) by simp
  have lb: "points_lower_bound points (int q) = length points"
    using assms(2) by (rule points_lower_bound_all_less)
  have nth: "points ! length pre = p" using assms(1) by simp
  have len: "length points - Suc 0 = length pre" using assms(1) by simp
  have "\<not> frame p > int q" using assms(1,2) by simp
  then have sb: "step_back points (int q) (if length points = length points then length points - 1 else length points) = length pre"
    by (simp add: len step_back_stay nth)
  have last: "Suc (length pre) = length points" using assms(1) by simp
  show ?thesis
    unfolding align_found [OF ne assms(3) lb sb]
    using assms(4) last by (simp add: nth to_size_t_small)
qed

lemma align_between:
  assumes "points = pre @ a # b # post" and "\<forall>x\<in>set pre. frame x < int q"
    and "frame a < int q" and "int q < frame b"
    and "q < 2 ^ 63" and "- (2 ^ 63) \<le> frame a"
    and "frame b - frame a < 2 ^ 63"
    and "- (2 ^ 63) \<le> mapframe b - mapframe a" and "mapframe b - mapframe a < 2 ^ 63"
  shows "align fo (Some points) q =
     (if mapframe a < 0 then 0
      else to_size_t (mapframe a +
             lrintf (fmul fo (float_of_long fo (mapframe b - mapframe a))
                       (fdiv fo (float_of_long fo (int q - frame a))
                                (float_of_long fo (frame b - frame a))))))"
proof -
  have ne: "points \<noteq> []" using assms(1) by simp
  have "points_lower_bound points (int q) = length (pre @ [a]) + points_lower_bound (b # post) (int q)"
    using assms(1-3) points_lower_bound_append [of "pre @ [a]" "int q" "b # post"] by simp
  then have lb: "points_lower_bound points (int q) = Suc (length pre)"
    using assms(4) by simp
  have ntha: "points ! length pre = a" using assms(1) by simp
  have nthb: "points ! Suc (length pre) = b" using assms(1)
    by (simp add: nth_append)
  have neq: "Suc (length pre) \<noteq> length points" using assms(1) by simp
  have sb: "step_back points (int q) (if Suc (length pre) = length points then Suc (length pre) - 1 else Suc (length pre)) = length pre"
    using neq assms(3,4) by (simp add: step_back_stay ntha nthb)
  have ts: "int (to_size_t (int q - frame a)) = int q - frame a"
    using assms(3,5,6) by (simp add: to_size_t_small)
  have df: "slong (frame b - frame a) = frame b - frame a"
    by (rule slong_sv_frame) (use assms(3,4,7) in simp_all)
  have dm: "slong (mapframe b - mapframe a) = mapframe b - mapframe a"
    by (rule slong_sv_frame [OF assms(8,9)])
  show ?thesis
    unfolding align_found [OF ne assms(5) lb sb] ntha nthb ts df dm
    using assms(3,4) neq by simp
qed

lemma align_before_first:
  assumes "points = p # post" and "int q < frame p"
    and "q < 2 ^ 63" and "mapframe p < 2 ^ 64"
  shows "align fo (Some points) q = (if mapframe p < 0 then 0 else nat (mapframe p))"
  using assms by (simp add: align_def to_long_small Let_def to_size_t_small)

text \<open>
  Claim C3, as the code has it. For a non-empty path sorted by its first coordinate, with
  \<open>long\<close> coordinates, and a query \<open>q\<close> below \<open>2 ^ 63\<close>, \<open>align\<close> answers from the entry
  it finds, clamped to 0 when that entry's mapped value is negative:
  \<^item> when some entry has frame \<open>q\<close>, the first such entry \<open>p\<close> is found and its mapped value
    is returned;
  \<^item> a query past the last vertex returns the last vertex's mapped value;
  \<^item> a query before the first vertex returns the first vertex's mapped value;
  \<^item> a query strictly between two consecutive entries \<open>a = (q0, m0)\<close> and \<open>b = (q1, m1)\<close>,
    whose coordinates differ by less than \<open>2 ^ 63\<close>, returns
    \<open>m0 + lrintf(float(m1 - m0) * (float(q - q0) / float(q1 - q0)))\<close>, the conversions, the
    quotient and the product being the single-precision operations and \<open>lrintf\<close> rounding
    ties to even, provided that sum is not negative.
\<close>

theorem C3_align_by_cases:
  assumes "sorted (map frame points)" and "long_range points" and "q < 2 ^ 63"
  shows "(points = pre @ p # post \<and> frame p = int q \<and> (\<forall>x\<in>set pre. frame x \<noteq> int q) \<longrightarrow>
            align fo (Some points) q = (if mapframe p < 0 then 0 else nat (mapframe p))) \<and>
         (points = pre @ [p] \<and> frame p < int q \<longrightarrow>
            align fo (Some points) q = (if mapframe p < 0 then 0 else nat (mapframe p))) \<and>
         (points = p # post \<and> int q < frame p \<longrightarrow>
            align fo (Some points) q = (if mapframe p < 0 then 0 else nat (mapframe p))) \<and>
         (points = pre @ a # b # post \<and> frame a < int q \<and> int q < frame b \<and>
          frame b - frame a < 2 ^ 63 \<and>
          - (2 ^ 63) \<le> mapframe b - mapframe a \<and> mapframe b - mapframe a < 2 ^ 63 \<and>
          r = mapframe a +
                lrintf (fmul fo (float_of_long fo (mapframe b - mapframe a))
                          (fdiv fo (float_of_long fo (int q - frame a))
                                   (float_of_long fo (frame b - frame a)))) \<and>
          0 \<le> r \<and> r < 2 ^ 64 \<longrightarrow>
            align fo (Some points) q = (if mapframe a < 0 then 0 else nat r))"
proof (intro conjI impI)
  assume h: "points = pre @ p # post \<and> frame p = int q \<and> (\<forall>x\<in>set pre. frame x \<noteq> int q)"
  then have "\<forall>x\<in>set pre. frame x \<le> frame p"
    using assms(1) by (auto simp: sorted_append)
  with h have less: "\<forall>x\<in>set pre. frame x < int q" by fastforce
  have "mapframe p < 2 ^ 64" using assms(2) h by (simp add: long_range_def)
  with h less show "align fo (Some points) q = (if mapframe p < 0 then 0 else nat (mapframe p))"
    using align_at_first_equal [of points pre p post q fo] assms(3) by blast
next
  assume h: "points = pre @ [p] \<and> frame p < int q"
  then have "\<forall>x\<in>set points. frame x \<le> frame p"
    using assms(1) by (auto simp: sorted_append)
  with h have less: "\<forall>x\<in>set points. frame x < int q" by fastforce
  have "mapframe p < 2 ^ 64" using assms(2) h by (simp add: long_range_def)
  with h less show "align fo (Some points) q = (if mapframe p < 0 then 0 else nat (mapframe p))"
    using align_past_last [of points pre p q fo] assms(3) by blast
next
  assume h: "points = p # post \<and> int q < frame p"
  have "mapframe p < 2 ^ 64" using assms(2) h by (simp add: long_range_def)
  with h show "align fo (Some points) q = (if mapframe p < 0 then 0 else nat (mapframe p))"
    using align_before_first [of points p post q fo] assms(3) by blast
next
  let ?r = "mapframe a +
              lrintf (fmul fo (float_of_long fo (mapframe b - mapframe a))
                        (fdiv fo (float_of_long fo (int q - frame a))
                                 (float_of_long fo (frame b - frame a))))"
  assume h: "points = pre @ a # b # post \<and> frame a < int q \<and> int q < frame b \<and>
     frame b - frame a < 2 ^ 63 \<and>
     - (2 ^ 63) \<le> mapframe b - mapframe a \<and> mapframe b - mapframe a < 2 ^ 63 \<and>
     r = ?r \<and> 0 \<le> r \<and> r < 2 ^ 64"
  then have "\<forall>x\<in>set pre. frame x \<le> frame a"
    using assms(1) by (auto simp: sorted_append)
  with h have less: "\<forall>x\<in>set pre. frame x < int q" by fastforce
  have lo: "- (2 ^ 63) \<le> frame a" using assms(2) h by (simp add: long_range_def)
  have "align fo (Some points) q = (if mapframe a < 0 then 0 else to_size_t ?r)"
    using align_between [of points pre a b post q fo] h less lo assms(3) by blast
  moreover have "to_size_t r = nat r" using h by (simp add: to_size_t_small)
  ultimately show "align fo (Some points) q = (if mapframe a < 0 then 0 else nat r)"
    using h by simp
qed

theorem C3_align_by_cases_witness:
  "sorted (map frame [\<lparr>frame = 0, mapframe = 0\<rparr>, \<lparr>frame = 1000, mapframe = 500\<rparr>]) \<and>
   long_range [\<lparr>frame = 0, mapframe = 0\<rparr>, \<lparr>frame = 1000, mapframe = 500\<rparr>] \<and>
   align exact_ops (Some [\<lparr>frame = 0, mapframe = 0\<rparr>, \<lparr>frame = 1000, mapframe = 500\<rparr>]) 500 = 250 \<and>
   align exact_ops (Some [\<lparr>frame = 0, mapframe = 0\<rparr>, \<lparr>frame = 1000, mapframe = 500\<rparr>]) 1500 = 500 \<and>
   align exact_ops (Some [\<lparr>frame = 0, mapframe = 0\<rparr>, \<lparr>frame = 1000, mapframe = 500\<rparr>]) 1000 = 500 \<and>
   align exact_ops (Some [\<lparr>frame = 10, mapframe = 5\<rparr>, \<lparr>frame = 1000, mapframe = 500\<rparr>]) 3 = 5"
proof -
  let ?a = "\<lparr>frame = 0, mapframe = 0\<rparr>" and ?b = "\<lparr>frame = 1000, mapframe = 500\<rparr>"
  let ?c = "\<lparr>frame = 10, mapframe = 5\<rparr>"
  have s: "sorted (map frame [?a, ?b])" and l: "long_range [?a, ?b]"
    and s': "sorted (map frame [?c, ?b])" and l': "long_range [?c, ?b]"
    by (simp_all add: long_range_def)
  have "align exact_ops (Some [?a, ?b]) 500 = 250"
    using C3_align_by_cases [OF s l, where q = 500 and fo = exact_ops and pre = "[]" and a = ?a
        and b = ?b and post = "[]" and r = 250]
    by (simp add: exact_ops_def lrintf_def)
  moreover have "align exact_ops (Some [?a, ?b]) 1500 = 500"
    using C3_align_by_cases [OF s l, where q = 1500 and fo = exact_ops and pre = "[?a]" and p = ?b]
    by simp
  moreover have "align exact_ops (Some [?a, ?b]) 1000 = 500"
    using C3_align_by_cases [OF s l, where q = 1000 and fo = exact_ops and pre = "[?a]" and p = ?b and post = "[]"]
    by simp
  moreover have "align exact_ops (Some [?c, ?b]) 3 = 5"
    using C3_align_by_cases [OF s' l', where q = 3 and fo = exact_ops and p = ?c and post = "[?b]"]
    by simp
  ultimately show ?thesis using s l by simp
qed

text \<open>
  Claim C3 as the specification states it fails halfway between two vertices: on the path
  \<open>(0, 0), (2, 1)\<close> the query 1 gives the interpolation term \<open>1 * (1 / 2)\<close>, which the
  specification rounds to 1 and \<open>lrintf\<close> (ties to even) to 0. The three integers and the
  quotient are held exactly in single precision.
\<close>

theorem C3_spec_align_counterexample:
  "spec_align [\<lparr>frame = 0, mapframe = 0\<rparr>, \<lparr>frame = 2, mapframe = 1\<rparr>] 1 = [1] \<and>
   align exact_ops (Some [\<lparr>frame = 0, mapframe = 0\<rparr>, \<lparr>frame = 2, mapframe = 1\<rparr>]) 1 = 0"
proof -
  have half: "\<lfloor>1 / 2 :: rat\<rfloor> = 0" by (simp add: floor_eq_iff)
  show ?thesis
    by (simp add: spec_align_def spec_answer_def align_def to_long_def to_size_t_def slong_def
        exact_ops_def lrintf_def round_def Let_def half)
qed

section \<open>Round trip at the vertices\<close>

lemma set_addPoint: "set (addPoint p xs) = insert p (set xs)"
  by (induction xs) auto

lemma sorted_addPoint: "sorted (map frame xs) \<Longrightarrow> sorted (map frame (addPoint p xs))"
  by (induction xs) (auto simp: set_addPoint)

lemma foldl_addPoint_set:
  "set (foldl (\<lambda>path i. addPoint (g i) path) acc pts) = set acc \<union> g ` set pts"
  by (induction pts arbitrary: acc) (auto simp: set_addPoint)

lemma foldl_addPoint_sorted:
  "sorted (map frame acc) \<Longrightarrow> sorted (map frame (foldl (\<lambda>path i. addPoint (g i) path) acc pts))"
  by (induction pts arbitrary: acc) (auto simp: sorted_addPoint)

lemma align_at_vertex:
  assumes "sorted (map frame points)" and "p \<in> set points" and "frame p = int q"
    and "\<forall>x\<in>set points. frame x = int q \<longrightarrow> mapframe x = m"
    and "q < 2 ^ 63" and "0 \<le> m" and "m < 2 ^ 64"
  shows "align fo (Some points) q = nat m"
proof -
  from split_list_first_prop [of points "\<lambda>x. frame x = int q"] assms(2,3)
  obtain pre x post where sp: "points = pre @ x # post" "frame x = int q"
    "\<forall>y\<in>set pre. frame y \<noteq> int q" by blast
  have "\<forall>y\<in>set pre. frame y \<le> frame x"
    using assms(1) sp(1) by (auto simp: sorted_append)
  with sp have less: "\<forall>y\<in>set pre. frame y < int q" by fastforce
  have mx: "mapframe x = m" using assms(4) sp by simp
  show ?thesis
    using align_at_first_equal [OF sp(1) less sp(2) assms(5), of fo] mx assms(6,7) by simp
qed

text \<open>
  Claim C4, as the code has it. Let the paths be built from a raw path, and let a raw point
  give the forward pair \<open>(s, t)\<close> with \<open>s = tv_frame p\<close> and \<open>t = rf (tv_value p)\<close>, both
  non-negative. If every raw point at frame \<open>s\<close> maps to \<open>t\<close>, then \<open>toReference s = t\<close>;
  if every raw point that maps to \<open>t\<close> is at frame \<open>s\<close>, then \<open>fromReference t = s\<close>.
\<close>

theorem C4_round_trip_at_vertices:
  assumes "m_rawPath am = Some raw" and "p \<in> set (stv_points raw)"
    and "0 \<le> tv_frame p" and "tv_frame p < 2 ^ 63"
    and "0 \<le> rf (tv_value p)" and "rf (tv_value p) < 2 ^ 63"
  shows "((\<forall>p'\<in>set (stv_points raw). tv_frame p' = tv_frame p \<longrightarrow> rf (tv_value p') = rf (tv_value p)) \<longrightarrow>
            fst (toReference rf fo (constructReversePath rf (constructPath rf am)) (nat (tv_frame p)))
              = nat (rf (tv_value p))) \<and>
         ((\<forall>p'\<in>set (stv_points raw). rf (tv_value p') = rf (tv_value p) \<longrightarrow> tv_frame p' = tv_frame p) \<longrightarrow>
            fst (fromReference rf fo (constructReversePath rf (constructPath rf am)) (nat (rf (tv_value p))))
              = nat (tv_frame p))"
proof (intro conjI impI)
  let ?am = "constructReversePath rf (constructPath rf am)"
  let ?f = "\<lambda>i. \<lparr>frame = tv_frame i, mapframe = rf (tv_value i)\<rparr>"
  let ?r = "\<lambda>i. \<lparr>frame = rf (tv_value i), mapframe = tv_frame i\<rparr>"
  have path: "m_path ?am = Some (fillPath rf (stv_points raw))"
    and rpath: "m_reversePath ?am = Some (fillReversePath rf (stv_points raw))"
    using assms(1) by (simp_all add: constructPath_def constructReversePath_def)
  {
    assume u: "\<forall>p'\<in>set (stv_points raw). tv_frame p' = tv_frame p \<longrightarrow> rf (tv_value p') = rf (tv_value p)"
    have srt: "sorted (map frame (fillPath rf (stv_points raw)))"
      unfolding fillPath_def by (rule foldl_addPoint_sorted) simp
    have mem: "?f p \<in> set (fillPath rf (stv_points raw))"
      unfolding fillPath_def foldl_addPoint_set [of ?f] using assms(2) by simp
    have uniq: "\<forall>x\<in>set (fillPath rf (stv_points raw)).
        frame x = int (nat (tv_frame p)) \<longrightarrow> mapframe x = rf (tv_value p)"
      unfolding fillPath_def foldl_addPoint_set [of ?f] using u assms(3) by auto
    have "align fo (Some (fillPath rf (stv_points raw))) (nat (tv_frame p)) = nat (rf (tv_value p))"
      by (rule align_at_vertex [OF srt mem _ uniq]) (use assms(3-6) in simp_all)
    then show "fst (toReference rf fo ?am (nat (tv_frame p))) = nat (rf (tv_value p))"
      by (simp add: toReference_def path)
  }
  {
    assume u: "\<forall>p'\<in>set (stv_points raw). rf (tv_value p') = rf (tv_value p) \<longrightarrow> tv_frame p' = tv_frame p"
    have srt: "sorted (map frame (fillReversePath rf (stv_points raw)))"
      unfolding fillReversePath_def by (rule foldl_addPoint_sorted) simp
    have mem: "?r p \<in> set (fillReversePath rf (stv_points raw))"
      unfolding fillReversePath_def foldl_addPoint_set [of ?r] using assms(2) by simp
    have uniq: "\<forall>x\<in>set (fillReversePath rf (stv_points raw)).
        frame x = int (nat (rf (tv_value p))) \<longrightarrow> mapframe x = tv_frame p"
      unfolding fillReversePath_def foldl_addPoint_set [of ?r] using u assms(5) by auto
    have "align fo (Some (fillReversePath rf (stv_points raw))) (nat (rf (tv_value p))) = nat (tv_frame p)"
      by (rule align_at_vertex [OF srt mem _ uniq]) (use assms(3-6) in simp_all)
    then show "fst (fromReference rf fo ?am (nat (rf (tv_value p)))) = nat (tv_frame p)"
      by (simp add: fromReference_def rpath)
  }
qed

theorem C4_round_trip_at_vertices_witness:
  "fst (toReference (\<lambda>v. v) exact_ops (AlignmentModel_new (\<lambda>v. v) False (Some plateau)) 2) = 3 \<and>
   fst (fromReference (\<lambda>v. v) exact_ops (AlignmentModel_new (\<lambda>v. v) False (Some plateau)) 3) = 2"
proof -
  let ?init = "\<lparr>m_inputModel = False, m_rawPath = Some plateau, m_path = None,
                 m_reversePath = None, m_pathBegun = False, m_pathComplete = False\<rparr>"
  let ?p = "\<lparr>tv_frame = 2, tv_value = 3::int, tv_label = ''''\<rparr>"
  have raw: "m_rawPath ?init = Some plateau" by simp
  have mem: "?p \<in> set (stv_points plateau)" by (simp add: plateau_def)
  show ?thesis
    using C4_round_trip_at_vertices [OF raw mem, of "\<lambda>v. v" exact_ops]
    by (simp add: AlignmentModel_new_def plateau_def)
qed

text \<open>
  Claim C4 as stated fails on a plateau: the raw points at frames 0 and 1 both give the
  reference frame 0, and \<open>fromReference 0\<close> is 0, not 1.
\<close>

theorem C4_plateau_counterexample:
  "\<lparr>tv_frame = 1, tv_value = 0, tv_label = ''''\<rparr> \<in> set (stv_points plateau) \<and>
   fst (fromReference (\<lambda>v. v) exact_ops (AlignmentModel_new (\<lambda>v. v) False (Some plateau)) 0) \<noteq> 1"
  by (simp add: plateau_def fromReference_def AlignmentModel_new_def constructPath_def
      constructReversePath_def fillPath_def fillReversePath_def align_def Let_def to_long_def
      to_size_t_def)

section \<open>Identity mapping without a path\<close>

text \<open>
  Claim C10. For every query frame \<open>q\<close>: an alignment model constructed with a null raw
  path maps \<open>q\<close> to itself in both directions, and so does every alignment model whose
  derived path (respectively reverse path) exists but holds no points.
\<close>

theorem C10_identity_without_path:
  "fst (toReference rf fo (AlignmentModel_new rf inp None) q) = q \<and>
   fst (fromReference rf fo (AlignmentModel_new rf inp None) q) = q \<and>
   (m_path am = Some [] \<longrightarrow> fst (toReference rf fo am q) = q) \<and>
   (m_reversePath am = Some [] \<longrightarrow> fst (fromReference rf fo am q) = q)"
  by (simp add: toReference_def fromReference_def AlignmentModel_new_def constructPath_def
      constructReversePath_def align_def)

theorem C10_identity_without_path_witness:
  "fst (toReference (\<lambda>v::int. v) exact_ops
        \<lparr>m_inputModel = False, m_rawPath = None, m_path = Some [], m_reversePath = Some [],
         m_pathBegun = True, m_pathComplete = True\<rparr> 7) = 7 \<and>
   fst (fromReference (\<lambda>v::int. v) exact_ops
        \<lparr>m_inputModel = False, m_rawPath = None, m_path = Some [], m_reversePath = Some [],
         m_pathBegun = True, m_pathComplete = True\<rparr> 7) = 7"
  using C10_identity_without_path [of "\<lambda>v::int. v" exact_ops False 7
      "\<lparr>m_inputModel = False, m_rawPath = None, m_path = Some [], m_reversePath = Some [],
        m_pathBegun = True, m_pathComplete = True\<rparr>"]
  by simp

section \<open>FeatureExtractionModelTransformer: the block pump and its completion reports\<close>

text \<open>
  What \<open>run\<close> reads before the loop: the input model's extent, the transform's context (in
  frames, as \<open>realTime2Frame\<close> returned it), the step and block sizes (\<open>size_t\<close>) and the
  plugin's input domain.
\<close>

record run_cfg =
  startFrame :: int
  endFrame :: int
  contextStartRT :: int
  contextDurationRT :: int
  stepSize :: nat
  blockSize :: nat
  frequencyDomain :: bool

text \<open>
  What happens around the worker while it runs. \<open>m_abandoned\<close> is set from another
  thread; \<open>abandoned bf k\<close> is the flag as read by the \<open>k\<close>-th test of the iteration at
  block frame \<open>bf\<close> (0: the loop condition, 1: after the block was read, 2: after
  \<open>process\<close>). \<open>abandonedWaiting\<close> is the flag as read after the wait for the input
  model, \<open>fftModelsOK\<close> tells whether the FFT models could be created, \<open>fftError bf\<close>
  whether an FFT model reports an error at block frame \<open>bf\<close>.
\<close>

record run_env =
  hasInput :: bool
  hasOutputs :: bool
  abandonedWaiting :: bool
  fftModelsOK :: bool
  fftError :: "int \<Rightarrow> bool"
  abandoned :: "int \<Rightarrow> nat \<Rightarrow> bool"

datatype run_outcome = Returned | ThrewAllocationFailed | DivisionByZero

definition contextStart :: "run_cfg \<Rightarrow> int" where
  "contextStart c =
     (if contextStartRT c = 0 \<or> contextStartRT c < startFrame c then startFrame c
      else contextStartRT c)"

definition contextDuration :: "run_cfg \<Rightarrow> int" where
  "contextDuration c =
     (let d = (if contextDurationRT c = 0 then endFrame c - contextStart c else contextDurationRT c)
      in if contextStart c + d > endFrame c then endFrame c - contextStart c else d)"

text \<open>
  \<open>(((blockFrame - contextStart) / stepSize) * 99) / (contextDuration / stepSize + 1)\<close>:
  the \<open>long\<close> operands meet the \<open>size_t\<close> step, so the arithmetic is unsigned.
\<close>

definition completion_at :: "run_cfg \<Rightarrow> int \<Rightarrow> int" where
  "completion_at c blockFrame =
     slong (ulong ((ulong (blockFrame - contextStart c) div int (stepSize c)) * 99) div
            ulong (ulong (contextDuration c) div int (stepSize c) + 1))"

definition past_end :: "run_cfg \<Rightarrow> int \<Rightarrow> bool" where
  "past_end c blockFrame =
     (if frequencyDomain c
      then blockFrame - int (blockSize c) div 2 > contextStart c + contextDuration c
      else blockFrame \<ge> contextStart c + contextDuration c)"

text \<open>
  The main loop, from the block frame and \<open>prevCompletion\<close> on: the list of values passed
  to \<open>setCompletion\<close> inside the loop, and whether the loop ended by a division by zero.
  The plugin calls and the routing of features do not touch the completion.
\<close>

function pump :: "run_env \<Rightarrow> run_cfg \<Rightarrow> int \<Rightarrow> int \<Rightarrow> int list \<times> run_outcome" where
  "pump e c blockFrame prevCompletion =
     (if abandoned e blockFrame 0 then ([], Returned)
      else if past_end c blockFrame then ([], Returned)
      else if stepSize c = 0 \<or> ulong (ulong (contextDuration c) div int (stepSize c) + 1) = 0
      then ([], DivisionByZero)
      else
        let completion = completion_at c blockFrame in
        if frequencyDomain c \<and> fftError e blockFrame then ([], Returned)
        else if abandoned e blockFrame 1 then ([], Returned)
        else if abandoned e blockFrame 2 then ([], Returned)
        else if blockFrame = contextStart c \<or> completion > prevCompletion
        then (let (cs, r) = pump e c (blockFrame + int (stepSize c)) completion
              in (completion # cs, r))
        else pump e c (blockFrame + int (stepSize c)) prevCompletion)"
  by pat_completeness auto
termination
  by (relation "measure (\<lambda>(e, c, bf, p).
        nat (contextStart c + contextDuration c + int (blockSize c) div 2 + 1 - bf))")
     (auto simp: past_end_def split: if_splits)

text \<open>
  \<open>run\<close>, as the sequence of values passed to \<open>setCompletion\<close> for an output model. Every
  output receives the same sequence: \<open>setCompletion(j, v)\<close> is called for all \<open>j\<close> in turn.
\<close>

definition run :: "run_env \<Rightarrow> run_cfg \<Rightarrow> int list \<times> run_outcome" where
  "run e c =
     (if \<not> hasInput e then ([], Returned)
      else if \<not> hasOutputs e then ([], Returned)
      else if abandonedWaiting e then ([], Returned)
      else if frequencyDomain c \<and> \<not> fftModelsOK e then ([100], ThrewAllocationFailed)
      else case pump e c (contextStart c) 0 of
             (cs, DivisionByZero) \<Rightarrow> (0 # cs, DivisionByZero)
           | (cs, r) \<Rightarrow> (0 # cs @ [100], r))"

text \<open>\<open>NoteModel::setCompletion\<close>: the model keeps the value it is given.\<close>

definition setCompletion :: "int \<Rightarrow> int \<Rightarrow> int" where
  "setCompletion m_completion completion = (if m_completion = completion then m_completion else completion)"

text \<open>A short frequency-domain run with 75% overlap, and a worker that is never disturbed.\<close>

definition short_fft_run :: run_cfg where
  "short_fft_run = \<lparr>startFrame = 0, endFrame = 1000, contextStartRT = 0, contextDurationRT = 0,
                     stepSize = 512, blockSize = 2048, frequencyDomain = True\<rparr>"

definition undisturbed :: run_env where
  "undisturbed = \<lparr>hasInput = True, hasOutputs = True, abandonedWaiting = False, fftModelsOK = True,
                   fftError = (\<lambda>bf. False), abandoned = (\<lambda>bf k. False)\<rparr>"

text \<open>
  Claim C8, evaluated on the code. A worker abandoned while it waits for its input model
  returns before any completion is reported, so no output ever reaches 100. And in the
  frequency domain the loop runs on until \<open>blockFrame - blockSize/2\<close> passes the end of the
  context, while the completion formula divides by the number of steps in the context
  alone: with a block of 2048, a step of 512 and 1000 frames of input the reported values
  are 0, 0, 49, 99, 148 and then 100.
\<close>

theorem C8_completion_trace_failures:
  "run (undisturbed\<lparr>abandonedWaiting := True\<rparr>) short_fft_run = ([], Returned) \<and>
   run undisturbed short_fft_run = ([0, 0, 49, 99, 148, 100], Returned)"
  by (simp add: run_def undisturbed_def short_fft_run_def past_end_def completion_at_def
      contextStart_def contextDuration_def ulong_def slong_def Let_def)

section \<open>FeatureExtractionModelTransformer: routing a feature\<close>

text \<open>
  The \<open>float\<close> values of a feature are the rational numbers they hold, and the operations
  on them that round are those of \<open>float_ops\<close>.
\<close>

text \<open>\<open>Vamp::Plugin::Feature\<close> and the fields of \<open>OutputDescriptor\<close> that \<open>addFeature\<close> reads.\<close>

record Feature =
  hasTimestamp :: bool
  timestamp :: RealTime
  hasDuration :: bool
  duration :: RealTime
  "values" :: "rat list"
  label :: string



text \<open>
  The output models, each with the points (or columns) added to it so far, in the order
  of the \<open>addPoint\<close> calls. \<open>NotePoint frame value duration level label\<close> is
  \<open>NoteModel::Point(frame, value, duration, level, label)\<close>.
\<close>

datatype note_point = NotePoint nat rat int rat string

datatype region_point = RegionPoint nat rat int string

datatype output_model =
    SparseOneDimensionalModel "(nat \<times> string) list"
  | SparseTimeValueModel "(nat \<times> rat \<times> string) list"
  | FlexiNoteModel "note_point list"
  | NoteModel "note_point list"
  | RegionModel "region_point list"
  | EditableDenseThreeDimensionalModel nat "(nat \<times> rat list) list"
  | OtherModel












subsection \<open>The note routing as the specification words it\<close>










section \<open>CodedAudioFileReader: the decode cache\<close>

text \<open>
  The reader in \<open>CacheInMemory\<close> mode. A sample is the rational number the \<open>float\<close>
  holds; the decoder hands over finite samples. The gain and the samples read back are
  results of single-precision operations, which may leave the finite range: they are values
  of type \<open>single\<close>. An operation yields its exact result rounded to single precision, and
  the rounding is the parameter \<open>fl\<close>.
\<close>

datatype single = Finite rat | PosInf | NegInf | NaN





text \<open>
  Modelled from the spec: \<open>Resampler\<close> (base/Resampler.h is not among the sources). The
  spec says that the interleaved resampler converts by the ratio \<open>targetRate / sourceRate\<close>
  and has an internal delay, which a final pad of zero frames flushes. The model is a
  converter with a delay of \<open>latency\<close> input frames: once it has consumed \<open>n\<close> input frames
  it has produced \<open>\<lfloor>(n - latency) * ratio\<rfloor>\<close> output frames, and none while
  \<open>n \<le> latency\<close>. What the \<open>final\<close> flag does beyond that the spec leaves open: the
  converter either goes on as before, so that only the pad pushes the delayed frames out
  (\<open>releases = False\<close>), or hands out every frame up to \<open>\<lfloor>n * ratio\<rfloor>\<close>
  (\<open>releases = True\<close>). The values of the samples it produces are the parameter \<open>wave\<close>.
\<close>

record Resampler =
  latency :: int
  releases :: bool
  wave :: "nat \<Rightarrow> rat"
  channels :: nat
  consumed :: int
  produced :: int

definition delayed :: "int \<Rightarrow> rat \<Rightarrow> int \<Rightarrow> int" where
  "delayed D ratio n = max 0 \<lfloor>of_int (n - D) * ratio\<rfloor>"


datatype reader_error = FileOperationFailed | UndefinedBehaviour

record reader =
  m_initialised :: bool
  m_channelCount :: nat
  m_fileRate :: rat
  m_sampleRate :: rat
  m_cacheWriteBuffer :: "rat list"
  m_cacheWriteBufferIndex :: nat
  m_cacheWriteBufferSize :: nat
  m_resampler :: "Resampler option"
  m_fileFrameCount :: int
  m_frameCount :: int
  m_normalised :: bool
  m_max :: rat
  m_gain :: single
  m_data :: "rat list"

definition CodedAudioFileReader_new :: "rat \<Rightarrow> bool \<Rightarrow> reader" where
  "CodedAudioFileReader_new targetRate normalised =
     \<lparr>m_initialised = False, m_channelCount = 0, m_fileRate = 0, m_sampleRate = targetRate,
      m_cacheWriteBuffer = [], m_cacheWriteBufferIndex = 0, m_cacheWriteBufferSize = 16384,
      m_resampler = None, m_fileFrameCount = 0, m_frameCount = 0,
      m_normalised = normalised, m_max = 0, m_gain = Finite 1, m_data = []\<rparr>"

text \<open>
  \<open>initialiseDecodeCache\<close>, after the subclass has set the file rate and channel count;
  \<open>r0\<close> is the resampler that \<open>new Resampler(...)\<close> constructs. The write buffer is
  allocated, and nothing reads an element of it before it was written.
\<close>

definition initialiseDecodeCache :: "Resampler \<Rightarrow> reader \<Rightarrow> reader_error + reader" where
  "initialiseDecodeCache r0 s =
     (if m_fileRate s = 0 then Inl FileOperationFailed
      else
        let s1 = (if m_sampleRate s = 0 then s\<lparr>m_sampleRate := m_fileRate s\<rparr> else s);
            s2 = (if m_fileRate s1 \<noteq> m_sampleRate s1 then s1\<lparr>m_resampler := Some r0\<rparr> else s1)
        in Inr (s2\<lparr>m_cacheWriteBuffer := replicate (m_cacheWriteBufferSize s2 * m_channelCount s2) 0,
                   m_cacheWriteBufferIndex := 0, m_data := [], m_initialised := True\<rparr>))"












subsection \<open>Runs of the reader\<close>









text \<open>A normalising reader in memory, initialised for one channel, with nothing pushed.\<close>

definition mono_reader :: reader where
  "mono_reader =
     \<lparr>m_initialised = True, m_channelCount = 1, m_fileRate = 44100, m_sampleRate = 44100,
      m_cacheWriteBuffer = replicate 16384 0, m_cacheWriteBufferIndex = 0,
      m_cacheWriteBufferSize = 16384, m_resampler = None, m_fileFrameCount = 0, m_frameCount = 0,
      m_normalised = True, m_max = 0, m_gain = Finite 1, m_data = []\<rparr>"



text \<open>
  The resampler is in step with the reader when it has consumed the file frames counted so
  far and the frames it has produced, all of them in the cache, are those its delay allows.
  What a push leaves alone is collected in \<open>setup_of\<close>.
\<close>

definition in_step :: "int \<Rightarrow> bool \<Rightarrow> rat \<Rightarrow> reader \<Rightarrow> bool" where
  "in_step D rel ratio s =
     (\<exists>r. m_resampler s = Some r \<and> latency r = D \<and> releases r = rel \<and>
          channels r = m_channelCount s \<and> consumed r = m_fileFrameCount s \<and>
          produced r = m_frameCount s \<and> m_frameCount s = delayed D ratio (m_fileFrameCount s) \<and>
          0 \<le> m_fileFrameCount s)"


lemma mono_reader_init:
  "initialiseDecodeCache r0 ((CodedAudioFileReader_new 0 True)\<lparr>m_channelCount := 1, m_fileRate := 44100\<rparr>)
     = Inr mono_reader"
  by (simp add: initialiseDecodeCache_def CodedAudioFileReader_new_def mono_reader_def)

subsection \<open>Normalisation\<close>


















subsection \<open>Frame counts when resampling\<close>















lemma in_step_write_buffer [simp]:
  "in_step D rel ratio (s\<lparr>m_cacheWriteBuffer := b\<rparr>) = in_step D rel ratio s"
  by (simp add: in_step_def)

lemma in_step_index [simp]:
  "in_step D rel ratio (s\<lparr>m_cacheWriteBufferIndex := i\<rparr>) = in_step D rel ratio s"
  by (simp add: in_step_def)






section \<open>Event and EventSeries\<close>

text \<open>
  Modelled from the spec: \<open>Event\<close> (Event.h is not among the sources). An event has a
  frame, a duration that is never negative (0 means durationless), a value and a level that
  may be unset, and a label. Events are ordered lexicographically over
  (frame, duration, value, level, label), an unset property before a set one, and two
  events are equal iff all fields match. \<open>Event(frame)\<close> has nothing but its frame.
\<close>

record Event =
  getFrame :: int
  getDuration :: int
  getValue :: "rat option"
  getLevel :: "rat option"
  getLabel :: string

definition Event_at :: "int \<Rightarrow> Event" where
  "Event_at f = \<lparr>getFrame = f, getDuration = 0, getValue = None, getLevel = None, getLabel = ''''\<rparr>"

definition eventHasDuration :: "Event \<Rightarrow> bool" where
  "eventHasDuration e = (getDuration e \<noteq> 0)"

definition event_key :: "Event \<Rightarrow> int \<times> int \<times> rat option \<times> rat option \<times> string" where
  "event_key e = (getFrame e, getDuration e, getValue e, getLevel e, getLabel e)"

definition event_less :: "Event \<Rightarrow> Event \<Rightarrow> bool" where
  "event_less a b = (event_key a < event_key b)"

text \<open>
  The events a series is given: the constructor rejects a negative duration, and the frame
  and the end frame \<open>getFrame() + getDuration()\<close>, which \<open>add\<close> and \<open>remove\<close> form in
  \<open>sv_frame_t\<close>, are 64-bit values.
\<close>

definition valid_event :: "Event \<Rightarrow> bool" where
  "valid_event e =
     (0 \<le> getDuration e \<and> - (2 ^ 63) \<le> getFrame e \<and> getFrame e + getDuration e < 2 ^ 63)"

text \<open>
  \<open>m_events\<close> is a sorted vector, \<open>m_seams\<close> a \<open>std::map\<close> from frames to event vectors:
  the list of its entries in key order.
\<close>

type_synonym seam_map = "(int \<times> Event list) list"

record EventSeries =
  m_events :: "Event list"
  m_seams :: seam_map
  m_finalDurationlessEventFrame :: int

definition EventSeries_new :: EventSeries where
  "EventSeries_new = \<lparr>m_events = [], m_seams = [], m_finalDurationlessEventFrame = 0\<rparr>"

text \<open>\<open>lower_bound(m_events.begin(), m_events.end(), p)\<close>, as an index.\<close>

fun events_lower_bound :: "Event list \<Rightarrow> Event \<Rightarrow> nat" where
  "events_lower_bound [] p = 0"
| "events_lower_bound (x # xs) p = (if event_less x p then Suc (events_lower_bound xs p) else 0)"

text \<open>Iterators into the map are indices into the entry list; \<open>end()\<close> is its length.\<close>

fun seams_lower_bound :: "seam_map \<Rightarrow> int \<Rightarrow> nat" where
  "seams_lower_bound [] k = 0"
| "seams_lower_bound (x # xs) k = (if fst x < k then Suc (seams_lower_bound xs k) else 0)"

definition seams_find :: "seam_map \<Rightarrow> int \<Rightarrow> nat" where
  "seams_find seams k =
     (let i = seams_lower_bound seams k
      in if i < length seams \<and> fst (seams ! i) = k then i else length seams)"

text \<open>\<open>m_seams[k] = v\<close> and \<open>m_seams.erase(k)\<close>.\<close>

fun seams_assign :: "seam_map \<Rightarrow> int \<Rightarrow> Event list \<Rightarrow> seam_map" where
  "seams_assign [] k v = [(k, v)]"
| "seams_assign (x # xs) k v =
     (if fst x < k then x # seams_assign xs k v
      else if fst x = k then (k, v) # xs
      else (k, v) # x # xs)"

fun seams_erase :: "seam_map \<Rightarrow> int \<Rightarrow> seam_map" where
  "seams_erase [] k = []"
| "seams_erase (x # xs) k = (if fst x = k then xs else x # seams_erase xs k)"

text \<open>
  Modelled from the spec: \<open>createSeam\<close> (EventSeries.h is not among the sources). It
  makes sure a seam exists at the frame; a seam that has to be inserted gets a copy of the
  list of the nearest seam below, or the empty list when there is none.
\<close>

definition createSeam :: "seam_map \<Rightarrow> int \<Rightarrow> seam_map" where
  "createSeam seams frame' =
     (let i = seams_lower_bound seams frame'
      in if i < length seams \<and> fst (seams ! i) = frame' then seams
         else if i = 0 then seams_assign seams frame' []
         else seams_assign seams frame' (snd (seams ! (i - 1))))"

text \<open>
  Modelled from the spec: \<open>seamsEqual\<close> (EventSeries.h is not among the sources): a seam
  is redundant when its list equals the list at the previous key.
\<close>

definition seamsEqual :: "Event list \<Rightarrow> Event list \<Rightarrow> bool" where
  "seamsEqual s1 s2 = (s1 = s2)"

text \<open>
  The loop \<open>for (auto i = i0; i != i1; ++i)\<close> of \<open>add\<close> and of \<open>remove\<close>, changing the
  list of every seam it visits by \<open>g\<close>. The flag tells that the loop reached the end of the
  map before it met \<open>i1\<close>.
\<close>

function seams_update_range ::
  "(Event list \<Rightarrow> Event list) \<Rightarrow> seam_map \<Rightarrow> nat \<Rightarrow> nat \<Rightarrow> seam_map \<times> bool" where
  "seams_update_range g seams i i1 =
     (if i = i1 then (seams, False)
      else if i \<ge> length seams then (seams, True)
      else seams_update_range g (seams[i := (fst (seams ! i), g (snd (seams ! i)))]) (Suc i) i1)"
  by pat_completeness auto
termination
  by (relation "measure (\<lambda>(g, seams, i, i1). length seams - i)") auto

text \<open>
  \<open>EventSeries::add\<close>. The end frame is an \<open>sv_frame_t\<close> (\<open>int64_t\<close>) sum, written with
  its wrap-around.
\<close>

definition add :: "EventSeries \<Rightarrow> Event \<Rightarrow> EventSeries" where
  "add s p =
     (let pitr = events_lower_bound (m_events s) p;
          isUnique = \<not> (pitr < length (m_events s) \<and> m_events s ! pitr = p);
          s1 = s\<lparr>m_events := take pitr (m_events s) @ p # drop pitr (m_events s)\<rparr>;
          s2 = (if \<not> eventHasDuration p \<and> getFrame p > m_finalDurationlessEventFrame s1
                then s1\<lparr>m_finalDurationlessEventFrame := getFrame p\<rparr> else s1)
      in if eventHasDuration p \<and> isUnique then
           let frame' = getFrame p;
               endFrame' = slong (getFrame p + getDuration p);
               seams = createSeam (createSeam (m_seams s2) frame') endFrame';
               i0 = seams_find seams frame';
               i1 = seams_find seams endFrame'
           in s2\<lparr>m_seams := fst (seams_update_range (\<lambda>l. l @ [p]) seams i0 i1)\<rparr>
         else s2)"

text \<open>
  The tidying loop of \<open>remove\<close>: the keys, from \<open>i0\<close> up to \<open>i1\<close>, whose list equals that
  of the seam before. \<open>pitr\<close> is \<open>None\<close> for \<open>m_seams.end()\<close>.
\<close>

function redundant_keys :: "seam_map \<Rightarrow> nat option \<Rightarrow> nat \<Rightarrow> nat \<Rightarrow> int list" where
  "redundant_keys seams pitr i i1 =
     (if i \<ge> length seams then []
      else
        let this = (case pitr of
                      None \<Rightarrow> []
                    | Some j \<Rightarrow> if seamsEqual (snd (seams ! i)) (snd (seams ! j))
                                then [fst (seams ! i)] else [])
        in if i = i1 then this else this @ redundant_keys seams (Some i) (Suc i) i1)"
  by pat_completeness auto
termination
  by (relation "measure (\<lambda>(seams, pitr, i, i1). length seams - i)") auto

text \<open>\<open>while (begin != end && begin->second.empty()) erase(begin)\<close>.\<close>

fun drop_empty_front :: "seam_map \<Rightarrow> seam_map" where
  "drop_empty_front [] = []"
| "drop_empty_front (x # xs) = (if snd x = [] then drop_empty_front xs else x # xs)"

text \<open>The scan for the last durationless event, from the back of \<open>m_events\<close>.\<close>

fun last_durationless_frame :: "Event list \<Rightarrow> int" where
  "last_durationless_frame [] = 0"
| "last_durationless_frame (x # xs) = (if \<not> eventHasDuration x then getFrame x else last_durationless_frame xs)"

datatype series_error = LogicError

text \<open>\<open>EventSeries::remove\<close>; \<open>Inl LogicError\<close> is the \<open>std::logic_error\<close> it throws.\<close>

definition remove :: "EventSeries \<Rightarrow> Event \<Rightarrow> series_error + EventSeries" where
  "remove s p =
     (let pitr = events_lower_bound (m_events s) p in
      if pitr = length (m_events s) \<or> m_events s ! pitr \<noteq> p then Inr s
      else
        let nitr = Suc pitr;
            isUnique = \<not> (nitr \<noteq> length (m_events s) \<and> m_events s ! nitr = p);
            s1 = s\<lparr>m_events := take pitr (m_events s) @ drop (Suc pitr) (m_events s)\<rparr>;
            s2 = (if \<not> eventHasDuration p \<and> isUnique \<and> getFrame p = m_finalDurationlessEventFrame s1
                  then s1\<lparr>m_finalDurationlessEventFrame := last_durationless_frame (rev (m_events s1))\<rparr>
                  else s1)
        in if eventHasDuration p \<and> isUnique then
             let frame' = getFrame p;
                 endFrame' = slong (getFrame p + getDuration p);
                 i0 = seams_find (m_seams s2) frame';
                 i1 = seams_find (m_seams s2) endFrame';
                 (seams, reachedEnd) = seams_update_range (filter (\<lambda>e. e \<noteq> p)) (m_seams s2) i0 i1
             in if reachedEnd then Inl LogicError
                else
                  let redundant = redundant_keys seams (if i0 \<noteq> 0 then Some (i0 - 1) else None) i0 i1
                  in Inr (s2\<lparr>m_seams := drop_empty_front (foldl seams_erase seams redundant)\<rparr>)
           else Inr s2)"

text \<open>
  \<open>EventSeries::getEventsCovering\<close>. The \<open>std::set\<close> of found events is walked in event
  order, and each found event is pushed once for every instance in \<open>m_events\<close>.
\<close>

definition found_set :: "Event list \<Rightarrow> Event list" where
  "found_set l = sort_key event_key (remdups l)"

definition instances :: "Event list \<Rightarrow> Event \<Rightarrow> Event list" where
  "instances events p = takeWhile (\<lambda>e. e = p) (drop (events_lower_bound events p) events)"

definition getEventsCovering :: "EventSeries \<Rightarrow> int \<Rightarrow> Event list" where
  "getEventsCovering s frame' =
     (let pitr = events_lower_bound (m_events s) (Event_at frame');
          cover = filter (\<lambda>e. \<not> eventHasDuration e)
                    (takeWhile (\<lambda>e. getFrame e = frame') (drop pitr (m_events s)));
          sitr = seams_lower_bound (m_seams s) frame';
          sitr = (if sitr = length (m_seams s) \<or> fst (m_seams s ! sitr) > frame'
                  then (if sitr \<noteq> 0 then sitr - 1 else sitr) else sitr);
          found = (if sitr \<noteq> length (m_seams s) \<and> fst (m_seams s ! sitr) \<le> frame'
                   then found_set (snd (m_seams s ! sitr)) else [])
      in cover @ concat (map (instances (m_events s)) found))"

text \<open>A series is driven by a sequence of \<open>add\<close> and \<open>remove\<close> calls.\<close>

datatype series_op = Add Event | Remove Event

fun apply_op :: "EventSeries \<Rightarrow> series_op \<Rightarrow> series_error + EventSeries" where
  "apply_op s (Add p) = Inr (add s p)"
| "apply_op s (Remove p) = remove s p"

fun apply_ops :: "EventSeries \<Rightarrow> series_op list \<Rightarrow> series_error + EventSeries" where
  "apply_ops s [] = Inr s"
| "apply_ops s (x # xs) = (case apply_op s x of Inl e \<Rightarrow> Inl e | Inr s' \<Rightarrow> apply_ops s' xs)"

text \<open>The events of the specification's seam scenario.\<close>

definition ev :: "int \<Rightarrow> int \<Rightarrow> Event" where
  "ev f d = \<lparr>getFrame = f, getDuration = d, getValue = None, getLevel = None, getLabel = ''''\<rparr>"

declare seams_update_range.simps [simp del]

declare redundant_keys.simps [simp del]

subsection \<open>The invariant of the seam map\<close>

text \<open>
  An event covers the frames from its own frame up to, not including, its end. The seam
  map of a series is a table over the start and end frames of its durationful events, which
  holds at every key the events covering that key, in the order in which they entered.
\<close>

definition covers :: "int \<Rightarrow> Event \<Rightarrow> bool" where
  "covers k e = (getFrame e \<le> k \<and> k < getFrame e + getDuration e)"

definition cov :: "Event list \<Rightarrow> int \<Rightarrow> Event list" where
  "cov ord k = filter (covers k) ord"

definition endpoints :: "Event list \<Rightarrow> int set" where
  "endpoints ord = (\<Union>e\<in>set ord. {getFrame e, getFrame e + getDuration e})"

definition tab :: "(int \<Rightarrow> Event list) \<Rightarrow> int list \<Rightarrow> seam_map" where
  "tab h ks = map (\<lambda>k. (k, h k)) ks"

definition key_index :: "int list \<Rightarrow> int \<Rightarrow> nat" where
  "key_index ks k = length (takeWhile (\<lambda>x. x < k) ks)"

definition seam_inv :: "EventSeries \<Rightarrow> bool" where
  "seam_inv s =
     (\<exists>ord ks. distinct ord \<and> set ord = {e \<in> set (m_events s). eventHasDuration e} \<and>
        sorted_wrt (<) ks \<and> set ks = endpoints ord \<and> m_seams s = tab (cov ord) ks)"

definition series_inv :: "EventSeries \<Rightarrow> bool" where
  "series_inv s =
     (sorted (map event_key (m_events s)) \<and> (\<forall>e\<in>set (m_events s). valid_event e) \<and> seam_inv s)"

fun valid_op :: "series_op \<Rightarrow> bool" where
  "valid_op (Add p) = valid_event p"
| "valid_op (Remove p) = True"

subsection \<open>The event vector\<close>

lemma event_key_inject: "event_key a = event_key b \<longleftrightarrow> a = b"
  by (cases a, cases b) (auto simp: event_key_def)

lemma event_less_irrefl: "\<not> event_less a a"
  by (simp add: event_less_def)

lemma events_lower_bound_le: "events_lower_bound xs p \<le> length xs"
  by (induction xs) auto

lemma events_lower_bound_take:
  "\<forall>x\<in>set (take (events_lower_bound xs p) xs). event_less x p"
  by (induction xs) auto

lemma events_lower_bound_nth:
  "events_lower_bound xs p < length xs \<Longrightarrow> \<not> event_less (xs ! events_lower_bound xs p) p"
  by (induction xs) auto

lemma events_lower_bound_drop:
  assumes "sorted (map event_key xs)"
  shows "\<forall>x\<in>set (drop (events_lower_bound xs p) xs). \<not> event_less x p"
  using assms
proof (induction xs)
  case Nil
  then show ?case by simp
next
  case (Cons x xs)
  show ?case
  proof (cases "event_less x p")
    case True
    with Cons show ?thesis by simp
  next
    case False
    have "\<forall>y\<in>set xs. event_key x \<le> event_key y" using Cons.prems by simp
    with False have "\<forall>y\<in>set xs. \<not> event_less y p"
      unfolding event_less_def by fastforce
    with False show ?thesis by simp
  qed
qed

lemma sorted_insert_at_lower_bound:
  assumes "sorted (map event_key xs)"
  shows "sorted (map event_key (take (events_lower_bound xs p) xs @ p # drop (events_lower_bound xs p) xs))"
proof -
  let ?i = "events_lower_bound xs p"
  have a: "\<forall>x\<in>set (take ?i xs). event_key x \<le> event_key p"
    using events_lower_bound_take [of xs p] by (auto simp: event_less_def)
  have b: "\<forall>x\<in>set (drop ?i xs). event_key p \<le> event_key x"
    using events_lower_bound_drop [OF assms, of p] by (auto simp: event_less_def)
  have c: "sorted (map event_key (take ?i xs @ drop ?i xs))" using assms by simp
  then have d: "sorted (map event_key (take ?i xs))" "sorted (map event_key (drop ?i xs))"
    "\<forall>x\<in>set (take ?i xs). \<forall>y\<in>set (drop ?i xs). event_key x \<le> event_key y"
    unfolding map_append sorted_append by auto
  show ?thesis
    unfolding map_append sorted_append using a b d by auto
qed

lemma lower_bound_finds:
  assumes "sorted (map event_key xs)" and "p \<in> set xs"
  shows "events_lower_bound xs p < length xs \<and> xs ! events_lower_bound xs p = p"
  using assms
proof (induction xs)
  case Nil
  then show ?case by simp
next
  case (Cons x xs)
  show ?case
  proof (cases "event_less x p")
    case True
    then have "x \<noteq> p" using event_less_irrefl by auto
    with Cons True show ?thesis by auto
  next
    case False
    have "event_key x \<le> event_key p" using Cons.prems by auto
    with False have "event_key x = event_key p" by (simp add: event_less_def)
    then have "x = p" by (simp add: event_key_inject)
    with False show ?thesis by simp
  qed
qed

lemma lower_bound_absent:
  assumes "p \<notin> set xs"
  shows "\<not> (events_lower_bound xs p < length xs \<and> xs ! events_lower_bound xs p = p)"
proof
  assume h: "events_lower_bound xs p < length xs \<and> xs ! events_lower_bound xs p = p"
  then have "events_lower_bound xs p < length xs" by simp
  then have "xs ! events_lower_bound xs p \<in> set xs" by (rule nth_mem)
  with h have "p \<in> set xs" by simp
  with assms show False by simp
qed

lemma mset_insert_at: "mset (take i xs @ p # drop i xs) = add_mset p (mset xs)"
proof -
  have "mset xs = mset (take i xs) + mset (drop i xs)"
    by (metis append_take_drop_id mset_append)
  then show ?thesis by simp
qed

lemma mset_erase_at: "i < length xs \<Longrightarrow> mset (take i xs @ drop (Suc i) xs) = mset xs - {#xs ! i#}"
proof -
  assume "i < length xs"
  then have "xs = take i xs @ xs ! i # drop (Suc i) xs" by (rule id_take_nth_drop)
  then have "mset xs = mset (take i xs) + add_mset (xs ! i) (mset (drop (Suc i) xs))"
    by (metis mset.simps(2) mset_append)
  then show ?thesis by simp
qed

lemma sorted_erase_at: "sorted (map event_key xs) \<Longrightarrow> sorted (map event_key (take i xs @ drop (Suc i) xs))"
proof -
  assume s: "sorted (map event_key xs)"
  have "xs = take i xs @ drop i xs" by simp
  then have "sorted (map event_key (take i xs @ drop i xs))" using s by simp
  then have "sorted (map event_key (take i xs))" "sorted (map event_key (drop i xs))"
    "\<forall>x\<in>set (take i xs). \<forall>y\<in>set (drop i xs). event_key x \<le> event_key y"
    unfolding map_append sorted_append by auto
  moreover have "set (drop (Suc i) xs) \<subseteq> set (drop i xs)" by (simp add: set_drop_subset_set_drop)
  moreover have "sorted (map event_key (drop (Suc i) xs))"
    using s sorted_wrt_drop [of "(\<le>)" "map event_key xs" "Suc i"] by (simp add: drop_map)
  ultimately show ?thesis unfolding map_append sorted_append by auto
qed

text \<open>After the first instance is erased, another one, if any, is the next element.\<close>

lemma next_instance:
  assumes "sorted (map event_key xs)" and "i = events_lower_bound xs p" and "i < length xs" and "xs ! i = p"
  shows "(Suc i \<noteq> length xs \<and> xs ! Suc i = p) \<longleftrightarrow> p \<in> set (take i xs @ drop (Suc i) xs)"
proof
  assume "Suc i \<noteq> length xs \<and> xs ! Suc i = p"
  then have "Suc i < length xs" "xs ! Suc i = p" using assms(3) by auto
  then have "p \<in> set (drop (Suc i) xs)"
    using Cons_nth_drop_Suc [of "Suc i" xs] by (metis list.set_intros(1))
  then show "p \<in> set (take i xs @ drop (Suc i) xs)" by simp
next
  assume "p \<in> set (take i xs @ drop (Suc i) xs)"
  moreover have "p \<notin> set (take i xs)"
    using events_lower_bound_take [of xs p] assms(2) event_less_irrefl by blast
  ultimately have m: "p \<in> set (drop (Suc i) xs)" by simp
  then have len: "Suc i < length xs" by (cases "Suc i < length xs") auto
  have "sorted (map event_key (drop i xs))"
    using assms(1) sorted_wrt_drop [of "(\<le>)" "map event_key xs" i] by (simp add: drop_map)
  moreover have "drop i xs = p # (xs ! Suc i) # drop (Suc (Suc i)) xs"
    using len assms(3,4) Cons_nth_drop_Suc [of i xs] Cons_nth_drop_Suc [of "Suc i" xs] by simp
  ultimately have le1: "event_key p \<le> event_key (xs ! Suc i)" by simp
  have "sorted (map event_key (drop (Suc i) xs))"
    using assms(1) sorted_wrt_drop [of "(\<le>)" "map event_key xs" "Suc i"] by (simp add: drop_map)
  moreover have "drop (Suc i) xs = (xs ! Suc i) # drop (Suc (Suc i)) xs"
    using len Cons_nth_drop_Suc [of "Suc i" xs] by simp
  ultimately have "\<forall>y\<in>set (drop (Suc i) xs). event_key (xs ! Suc i) \<le> event_key y"
    by auto
  with m have "event_key (xs ! Suc i) \<le> event_key p" by blast
  with le1 have "event_key (xs ! Suc i) = event_key p" by simp
  then have "xs ! Suc i = p" by (simp add: event_key_inject)
  with len show "Suc i \<noteq> length xs \<and> xs ! Suc i = p" by simp
qed

subsection \<open>The seam map as a table over its keys\<close>

lemma length_tab [simp]: "length (tab h ks) = length ks"
  by (simp add: tab_def)

lemma nth_tab [simp]: "j < length ks \<Longrightarrow> tab h ks ! j = (ks ! j, h (ks ! j))"
  by (simp add: tab_def)

lemma tab_cong: "(\<And>k. k \<in> set ks \<Longrightarrow> h k = h' k) \<Longrightarrow> tab h ks = tab h' ks"
  by (simp add: tab_def)

lemma seams_lower_bound_tab: "seams_lower_bound (tab h ks) k = key_index ks k"
  by (induction ks) (auto simp: tab_def key_index_def)

lemma key_index_le: "key_index ks k \<le> length ks"
  by (simp add: key_index_def length_takeWhile_le)

lemma key_index_below: "j < key_index ks k \<Longrightarrow> ks ! j < k"
  unfolding key_index_def
proof (induction ks arbitrary: j)
  case Nil
  then show ?case by simp
next
  case (Cons x xs)
  then show ?case by (cases j) (auto split: if_splits)
qed

lemma key_index_above:
  "sorted_wrt (<) ks \<Longrightarrow> key_index ks k \<le> j \<Longrightarrow> j < length ks \<Longrightarrow> k \<le> ks ! j"
  unfolding key_index_def
proof (induction ks arbitrary: j)
  case Nil
  then show ?case by simp
next
  case (Cons x xs)
  show ?case
  proof (cases "x < k")
    case True
    with Cons.prems obtain j' where j: "j = Suc j'" by (cases j) auto
    with Cons True show ?thesis by auto
  next
    case False
    have "\<forall>y\<in>set xs. x < y" using Cons.prems(1) by simp
    then have "\<forall>y\<in>set (x # xs). k \<le> y" using False by fastforce
    then show ?thesis using Cons.prems(3) nth_mem by blast
  qed
qed

lemma key_index_iff:
  assumes "sorted_wrt (<) ks" and "j < length ks"
  shows "ks ! j < k \<longleftrightarrow> j < key_index ks k"
  using key_index_below [of j ks k] key_index_above [OF assms(1) _ assms(2), of k]
  by (meson leI not_less)

lemma key_index_mem:
  assumes "sorted_wrt (<) ks" and "k \<in> set ks"
  shows "key_index ks k < length ks \<and> ks ! key_index ks k = k"
proof -
  from assms(2) obtain j where j: "j < length ks" "ks ! j = k" by (auto simp: in_set_conv_nth)
  then have nlt: "\<not> j < key_index ks k" using key_index_below [of j ks k] by auto
  then have lt: "key_index ks k < length ks" using j(1) by simp
  have "k \<le> ks ! key_index ks k" using key_index_above [OF assms(1) _ lt] by simp
  moreover have "ks ! key_index ks k \<le> ks ! j"
    using assms(1) nlt j(1) lt
    by (cases "key_index ks k = j") (auto simp: sorted_wrt_iff_nth_less less_imp_le)
  ultimately show ?thesis using j lt by simp
qed

lemma seams_find_tab:
  assumes "sorted_wrt (<) ks"
  shows "seams_find (tab h ks) k = (if k \<in> set ks then key_index ks k else length ks)"
proof (cases "k \<in> set ks")
  case True
  with key_index_mem [OF assms True] show ?thesis
    by (simp add: seams_find_def seams_lower_bound_tab)
next
  case False
  have "\<not> (key_index ks k < length ks \<and> ks ! key_index ks k = k)"
  proof
    assume h: "key_index ks k < length ks \<and> ks ! key_index ks k = k"
    then have "key_index ks k < length ks" by (rule conjunct1)
    then have "ks ! key_index ks k \<in> set ks" by (rule nth_mem)
    with h False show False by simp
  qed
  then have "seams_find (tab h ks) k = length ks"
    by (cases "key_index ks k < length ks") (simp_all add: seams_find_def seams_lower_bound_tab)
  with False show ?thesis by simp
qed

lemma seams_assign_tab:
  "sorted_wrt (<) ks \<Longrightarrow> k \<notin> set ks \<Longrightarrow> seams_assign (tab h ks) k (h k) = tab h (insort k ks)"
  by (induction ks) (auto simp: tab_def)

lemma set_insort_int: "set (insort k ks) = insert k (set ks)"
  by (simp add: set_insort_key)

lemma sorted_wrt_insort:
  "sorted_wrt (<) ks \<Longrightarrow> k \<notin> set ks \<Longrightarrow> sorted_wrt (<) (insort (k::int) ks)"
  by (induction ks) (auto simp: set_insort_key)

lemma endpoints_mem:
  "e \<in> set ord \<Longrightarrow> getFrame e \<in> endpoints ord \<and> getFrame e + getDuration e \<in> endpoints ord"
  by (auto simp: endpoints_def)

text \<open>Between a key and the key before it there is no endpoint.\<close>

lemma cov_copy_below:
  assumes "sorted_wrt (<) ks" and "endpoints ord \<subseteq> set ks" and "k \<notin> set ks"
    and "0 < key_index ks k"
  shows "cov ord (ks ! (key_index ks k - 1)) = cov ord k"
proof -
  let ?i = "key_index ks k"
  have il: "?i - 1 < length ks" using assms(4) key_index_le [of ks k] by simp
  have below: "ks ! (?i - 1) < k" using key_index_below [of "?i - 1" ks k] assms(4) by simp
  have gap: "x < k \<longleftrightarrow> x \<le> ks ! (?i - 1)" if "x \<in> set ks" for x
  proof -
    from that obtain j where j: "j < length ks" "ks ! j = x" by (auto simp: in_set_conv_nth)
    show ?thesis
    proof
      assume "x < k"
      then have "j < ?i" using key_index_iff [OF assms(1) j(1), of k] j(2) by simp
      then have "j \<le> ?i - 1" by simp
      then have "ks ! j \<le> ks ! (?i - 1)"
        using assms(1) il by (cases "j = ?i - 1") (auto simp: sorted_wrt_iff_nth_less less_imp_le)
      then show "x \<le> ks ! (?i - 1)" using j(2) by simp
    next
      assume "x \<le> ks ! (?i - 1)"
      then show "x < k" using below by simp
    qed
  qed
  have "covers (ks ! (?i - 1)) e = covers k e" if "e \<in> set ord" for e
  proof -
    from endpoints_mem [OF that] assms(2)
    have f: "getFrame e \<in> set ks" and b: "getFrame e + getDuration e \<in> set ks" by auto
    have "getFrame e \<noteq> k" "getFrame e + getDuration e \<noteq> k" using f b assms(3) by auto
    then show ?thesis
      using gap [OF f] gap [OF b] by (auto simp: covers_def)
  qed
  then show ?thesis unfolding cov_def by (auto intro: filter_cong)
qed

lemma cov_empty_below_all:
  assumes "sorted_wrt (<) ks" and "endpoints ord \<subseteq> set ks" and "k \<notin> set ks"
    and "key_index ks k = 0"
  shows "cov ord k = []"
proof -
  have "\<not> covers k e" if "e \<in> set ord" for e
  proof -
    from endpoints_mem [OF that] assms(2) have f: "getFrame e \<in> set ks" by auto
    then obtain j where j: "j < length ks" "ks ! j = getFrame e" by (auto simp: in_set_conv_nth)
    have "k \<le> ks ! j" using key_index_above [OF assms(1) _ j(1), of k] assms(4) by simp
    moreover have "getFrame e \<noteq> k" using f assms(3) by auto
    ultimately show ?thesis using j(2) by (simp add: covers_def)
  qed
  then show ?thesis by (simp add: cov_def)
qed

lemma createSeam_tab:
  assumes "sorted_wrt (<) ks" and "endpoints ord \<subseteq> set ks"
  shows "createSeam (tab (cov ord) ks) k = tab (cov ord) (if k \<in> set ks then ks else insort k ks)"
proof (cases "k \<in> set ks")
  case True
  with key_index_mem [OF assms(1) True] show ?thesis
    by (simp add: createSeam_def seams_lower_bound_tab)
next
  case False
  have no: "\<not> (key_index ks k < length ks \<and> fst (tab (cov ord) ks ! key_index ks k) = k)"
  proof
    assume h: "key_index ks k < length ks \<and> fst (tab (cov ord) ks ! key_index ks k) = k"
    then have l: "key_index ks k < length ks" by (rule conjunct1)
    then have "ks ! key_index ks k \<in> set ks" by (rule nth_mem)
    moreover have "ks ! key_index ks k = k" using h l by simp
    ultimately show False using False by simp
  qed
  show ?thesis
  proof (cases "key_index ks k = 0")
    case True
    have "createSeam (tab (cov ord) ks) k = seams_assign (tab (cov ord) ks) k []"
      using no True by (auto simp: createSeam_def seams_lower_bound_tab)
    also have "\<dots> = seams_assign (tab (cov ord) ks) k (cov ord k)"
      using cov_empty_below_all [OF assms False True] by simp
    also have "\<dots> = tab (cov ord) (insort k ks)"
      by (rule seams_assign_tab [OF assms(1) False])
    finally show ?thesis using False by simp
  next
    case nz: False
    then have pos: "0 < key_index ks k" by simp
    have il: "key_index ks k - 1 < length ks" using pos key_index_le [of ks k] by simp
    have "createSeam (tab (cov ord) ks) k =
          seams_assign (tab (cov ord) ks) k (snd (tab (cov ord) ks ! (key_index ks k - 1)))"
      using no nz by (auto simp: createSeam_def seams_lower_bound_tab simp del: nth_tab)
    also have "\<dots> = seams_assign (tab (cov ord) ks) k (cov ord k)"
      using cov_copy_below [OF assms False pos] il by simp
    also have "\<dots> = tab (cov ord) (insort k ks)"
      by (rule seams_assign_tab [OF assms(1) False])
    finally show ?thesis using False by simp
  qed
qed

lemma keys_with_seam:
  fixes ks :: "int list"
  assumes "sorted_wrt (<) ks"
  shows "sorted_wrt (<) (if k \<in> set ks then ks else insort k ks) \<and>
         set (if k \<in> set ks then ks else insort k ks) = insert k (set ks)"
proof (cases "k \<in> set ks")
  case True
  with assms show ?thesis by auto
next
  case False
  with assms sorted_wrt_insort [of ks k] show ?thesis by (simp add: set_insort_key)
qed

subsection \<open>The range loop\<close>

lemma seams_update_range_nth:
  "i \<le> i1 \<Longrightarrow> i1 \<le> length xs \<Longrightarrow>
   seams_update_range g xs i i1 =
     (map (\<lambda>j. if i \<le> j \<and> j < i1 then (fst (xs ! j), g (snd (xs ! j))) else xs ! j) [0..<length xs],
      False)"
proof (induction g xs i i1 rule: seams_update_range.induct)
  case (1 g seams i i1)
  show ?case
  proof (cases "i = i1")
    case True
    have "seams = map (\<lambda>j. if i1 \<le> j \<and> j < i1 then (fst (seams ! j), g (snd (seams ! j))) else seams ! j)
                    [0..<length seams]"
      by (rule nth_equalityI) auto
    with True show ?thesis by (subst seams_update_range.simps) simp
  next
    case False
    then have lt: "i < i1" "i < length seams" using "1.prems" by simp_all
    let ?xs' = "seams[i := (fst (seams ! i), g (snd (seams ! i)))]"
    have ih: "seams_update_range g ?xs' (Suc i) i1 =
      (map (\<lambda>j. if Suc i \<le> j \<and> j < i1 then (fst (?xs' ! j), g (snd (?xs' ! j))) else ?xs' ! j)
         [0..<length ?xs'], False)"
      using "1.IH" [OF False] lt "1.prems" by simp
    have "map (\<lambda>j. if Suc i \<le> j \<and> j < i1 then (fst (?xs' ! j), g (snd (?xs' ! j))) else ?xs' ! j)
            [0..<length ?xs'] =
          map (\<lambda>j. if i \<le> j \<and> j < i1 then (fst (seams ! j), g (snd (seams ! j))) else seams ! j)
            [0..<length seams]"
      using lt by (auto simp: nth_list_update)
    with ih show ?thesis
      using False lt by (subst seams_update_range.simps) simp
  qed
qed

lemma seams_update_range_tab:
  assumes "sorted_wrt (<) ks" and "a \<in> set ks" and "b \<in> set ks" and "a < b"
  shows "seams_update_range g (tab h ks) (seams_find (tab h ks) a) (seams_find (tab h ks) b) =
         (tab (\<lambda>k. if a \<le> k \<and> k < b then g (h k) else h k) ks, False)"
proof -
  let ?i0 = "key_index ks a" and ?i1 = "key_index ks b"
  have i0: "?i0 < length ks" "ks ! ?i0 = a" using key_index_mem [OF assms(1,2)] by simp_all
  have i1: "?i1 < length ks" "ks ! ?i1 = b" using key_index_mem [OF assms(1,3)] by simp_all
  have "?i0 < ?i1" using key_index_iff [OF assms(1) i0(1), of b] i0(2) assms(4) by simp
  then have le: "?i0 \<le> ?i1" "?i1 \<le> length (tab h ks)" using i1(1) by simp_all
  have range: "(?i0 \<le> j \<and> j < ?i1) \<longleftrightarrow> (a \<le> ks ! j \<and> ks ! j < b)" if "j < length ks" for j
    using key_index_iff [OF assms(1) that, of a] key_index_iff [OF assms(1) that, of b] by auto
  have "map (\<lambda>j. if ?i0 \<le> j \<and> j < ?i1 then (fst (tab h ks ! j), g (snd (tab h ks ! j))) else tab h ks ! j)
          [0..<length (tab h ks)] =
        tab (\<lambda>k. if a \<le> k \<and> k < b then g (h k) else h k) ks"
    by (rule nth_equalityI) (auto simp: range)
  then show ?thesis
    using seams_update_range_nth [OF le, of g] assms(1,2,3) by (simp add: seams_find_tab)
qed

subsection \<open>The seams after an insertion\<close>

lemma cov_append:
  "cov (ord @ [p]) k = (if covers k p then cov ord k @ [p] else cov ord k)"
  by (simp add: cov_def)

lemma endpoints_append:
  "endpoints (ord @ [p]) = insert (getFrame p) (insert (getFrame p + getDuration p) (endpoints ord))"
  by (auto simp: endpoints_def)

lemma add_seams_tab:
  assumes "sorted_wrt (<) ks" and "set ks = endpoints ord" and "0 < getDuration p"
    and "seams = createSeam (createSeam (tab (cov ord) ks) (getFrame p)) (getFrame p + getDuration p)"
  shows "\<exists>ks'. sorted_wrt (<) ks' \<and> set ks' = endpoints (ord @ [p]) \<and>
           fst (seams_update_range (\<lambda>l. l @ [p]) seams
                  (seams_find seams (getFrame p)) (seams_find seams (getFrame p + getDuration p)))
           = tab (cov (ord @ [p])) ks'"
proof -
  let ?f = "getFrame p" and ?b = "getFrame p + getDuration p"
  define k1 where "k1 = (if ?f \<in> set ks then ks else insort ?f ks)"
  define k2 where "k2 = (if ?b \<in> set k1 then k1 else insort ?b k1)"
  have e0: "endpoints ord \<subseteq> set ks" using assms(2) by simp
  have s1: "sorted_wrt (<) k1" and set1: "set k1 = insert ?f (set ks)"
    unfolding k1_def using keys_with_seam [OF assms(1), of ?f] by simp_all
  have e1: "endpoints ord \<subseteq> set k1" using e0 set1 by auto
  have s2: "sorted_wrt (<) k2" and set2: "set k2 = insert ?b (set k1)"
    unfolding k2_def using keys_with_seam [OF s1, of ?b] by simp_all
  have c1: "createSeam (tab (cov ord) ks) ?f = tab (cov ord) k1"
    unfolding k1_def by (rule createSeam_tab [OF assms(1) e0])
  have c2: "createSeam (tab (cov ord) k1) ?b = tab (cov ord) k2"
    unfolding k2_def by (rule createSeam_tab [OF s1 e1])
  have seams: "seams = tab (cov ord) k2" using assms(4) c1 c2 by simp
  have fin: "?f \<in> set k2" and bin: "?b \<in> set k2" using set1 set2 by auto
  have lt: "?f < ?b" using assms(3) by simp
  have h: "(\<lambda>k. if ?f \<le> k \<and> k < ?b then cov ord k @ [p] else cov ord k) = cov (ord @ [p])"
    by (rule ext) (simp add: cov_append covers_def)
  have "fst (seams_update_range (\<lambda>l. l @ [p]) seams (seams_find seams ?f) (seams_find seams ?b))
        = tab (cov (ord @ [p])) k2"
    unfolding seams seams_update_range_tab [OF s2 fin bin lt] h by simp
  moreover have "set k2 = insert ?b (insert ?f (set ks))"
    by (simp only: set2 set1)
  then have "set k2 = endpoints (ord @ [p])"
    by (simp only: endpoints_append assms(2) insert_commute)
  ultimately show ?thesis using s2 by blast
qed

lemma series_inv_new: "series_inv EventSeries_new"
  unfolding series_inv_def seam_inv_def EventSeries_new_def
  by (simp add: endpoints_def tab_def)

lemma add_events:
  "m_events (add s p) =
     take (events_lower_bound (m_events s) p) (m_events s) @ p #
     drop (events_lower_bound (m_events s) p) (m_events s)"
  by (simp add: add_def Let_def)

lemma set_add_events: "set (m_events (add s p)) = insert p (set (m_events s))"
proof -
  have "set (m_events (add s p)) = set (take (events_lower_bound (m_events s) p) (m_events s)) \<union>
        insert p (set (drop (events_lower_bound (m_events s) p) (m_events s)))"
    by (simp add: add_events)
  also have "\<dots> = insert p (set (take (events_lower_bound (m_events s) p) (m_events s) @
        drop (events_lower_bound (m_events s) p) (m_events s)))"
    by (simp only: set_append) blast
  finally show ?thesis by simp
qed

lemma mset_add_events: "mset (m_events (add s p)) = add_mset p (mset (m_events s))"
  by (simp only: add_events mset_insert_at)

lemma add_seams_unchanged:
  "\<not> eventHasDuration p \<or> p \<in> set (m_events s) \<Longrightarrow> sorted (map event_key (m_events s)) \<Longrightarrow>
   m_seams (add s p) = m_seams s"
proof -
  assume h: "\<not> eventHasDuration p \<or> p \<in> set (m_events s)" and srt: "sorted (map event_key (m_events s))"
  show ?thesis
  proof (cases "eventHasDuration p")
    case False
    then show ?thesis by (simp add: add_def Let_def)
  next
    case True
    with h have "p \<in> set (m_events s)" by simp
    from lower_bound_finds [OF srt this] show ?thesis
      by (simp add: add_def Let_def)
  qed
qed

lemma end_frame_representable:
  "valid_event p \<Longrightarrow> slong (getFrame p + getDuration p) = getFrame p + getDuration p"
  by (rule slong_sv_frame) (simp_all add: valid_event_def)

lemma add_seams_changed:
  assumes "eventHasDuration p" and "p \<notin> set (m_events s)" and "valid_event p"
  shows "m_seams (add s p) =
     (let seams = createSeam (createSeam (m_seams s) (getFrame p)) (getFrame p + getDuration p)
      in fst (seams_update_range (\<lambda>l. l @ [p]) seams
                (seams_find seams (getFrame p)) (seams_find seams (getFrame p + getDuration p))))"
  using assms(1,2) lower_bound_absent [OF assms(2)]
  by (simp add: add_def Let_def end_frame_representable [OF assms(3)])

lemma series_inv_add:
  assumes "series_inv s" and "valid_event p"
  shows "series_inv (add s p)"
proof -
  from assms(1) have srt: "sorted (map event_key (m_events s))"
    and val: "\<forall>e\<in>set (m_events s). valid_event e" and si: "seam_inv s"
    by (simp_all add: series_inv_def)
  have srt': "sorted (map event_key (m_events (add s p)))"
    unfolding add_events by (rule sorted_insert_at_lower_bound [OF srt])
  have val': "\<forall>e\<in>set (m_events (add s p)). valid_event e"
    using val assms(2) by (simp add: set_add_events)
  have "seam_inv (add s p)"
  proof (cases "eventHasDuration p \<and> p \<notin> set (m_events s)")
    case False
    then have un: "m_seams (add s p) = m_seams s"
      using add_seams_unchanged [OF _ srt, of p] by blast
    have "{e \<in> set (m_events (add s p)). eventHasDuration e} = {e \<in> set (m_events s). eventHasDuration e}"
      using False by (auto simp: set_add_events)
    with si un show ?thesis by (simp add: seam_inv_def)
  next
    case True
    from si obtain ord ks where o: "distinct ord"
      "set ord = {e \<in> set (m_events s). eventHasDuration e}"
      "sorted_wrt (<) ks" "set ks = endpoints ord" "m_seams s = tab (cov ord) ks"
      unfolding seam_inv_def by blast
    have pos: "0 < getDuration p"
      using True assms(2) by (simp add: eventHasDuration_def valid_event_def)
    from add_seams_tab [OF o(3,4) pos refl]
    obtain ks' where k: "sorted_wrt (<) ks'" "set ks' = endpoints (ord @ [p])"
      "m_seams (add s p) = tab (cov (ord @ [p])) ks'"
      using add_seams_changed [of p s] True assms(2) o(5) by (auto simp: Let_def)
    have "distinct (ord @ [p])" using o(1,2) True by auto
    moreover have "set (ord @ [p]) = {e \<in> set (m_events (add s p)). eventHasDuration e}"
      using o(2) True by (auto simp: set_add_events)
    ultimately show ?thesis unfolding seam_inv_def using k by blast
  qed
  with srt' val' show ?thesis by (simp add: series_inv_def)
qed

subsection \<open>The seams after a removal\<close>

lemma cov_remove:
  "(\<lambda>k. if getFrame p \<le> k \<and> k < getFrame p + getDuration p
         then filter (\<lambda>e. e \<noteq> p) (cov ord k) else cov ord k) =
   cov (filter (\<lambda>e. e \<noteq> p) ord)"
proof (rule ext)
  fix k
  have "\<not> covers k p \<Longrightarrow> filter (\<lambda>e. e \<noteq> p) (cov ord k) = cov ord k"
    by (rule filter_True) (auto simp: cov_def)
  moreover have "cov (filter (\<lambda>e. e \<noteq> p) ord) k = filter (\<lambda>e. e \<noteq> p) (cov ord k)"
    by (simp add: cov_def conj_commute)
  ultimately show "(if getFrame p \<le> k \<and> k < getFrame p + getDuration p
         then filter (\<lambda>e. e \<noteq> p) (cov ord k) else cov ord k) = cov (filter (\<lambda>e. e \<noteq> p) ord) k"
    by (auto simp: covers_def)
qed

lemma redundant_keys_set:
  "i \<le> i1 \<Longrightarrow> i1 < length seams \<Longrightarrow> pitr = (if i = 0 then None else Some (i - 1)) \<Longrightarrow>
   set (redundant_keys seams pitr i i1) =
     {fst (seams ! j) | j. i \<le> j \<and> j \<le> i1 \<and> 0 < j \<and> snd (seams ! j) = snd (seams ! (j - 1))}"
proof (induction seams pitr i i1 rule: redundant_keys.induct)
  case (1 seams pitr i i1)
  let ?cur = "case pitr of None \<Rightarrow> []
     | Some j \<Rightarrow> if seamsEqual (snd (seams ! i)) (snd (seams ! j)) then [fst (seams ! i)] else []"
  have il: "i < length seams" using "1.prems" by simp
  have cur: "set ?cur = {fst (seams ! j) | j. j = i \<and> 0 < j \<and> snd (seams ! j) = snd (seams ! (j - 1))}"
    using "1.prems"(3) by (auto simp: seamsEqual_def)
  show ?case
  proof (cases "i = i1")
    case True
    have "redundant_keys seams pitr i i1 = ?cur"
      using il True by (subst redundant_keys.simps) (simp add: Let_def)
    moreover have "{fst (seams ! j) | j. i \<le> j \<and> j \<le> i1 \<and> 0 < j \<and> snd (seams ! j) = snd (seams ! (j - 1))} =
        {fst (seams ! j) | j. j = i \<and> 0 < j \<and> snd (seams ! j) = snd (seams ! (j - 1))}"
      using True by auto
    ultimately show ?thesis using cur by simp
  next
    case False
    have eq: "redundant_keys seams pitr i i1 = ?cur @ redundant_keys seams (Some i) (Suc i) i1"
      using il False by (subst redundant_keys.simps) (simp add: Let_def)
    have "set (redundant_keys seams (Some i) (Suc i) i1) =
        {fst (seams ! j) | j. Suc i \<le> j \<and> j \<le> i1 \<and> 0 < j \<and> snd (seams ! j) = snd (seams ! (j - 1))}"
      using "1.IH" [OF _ refl False] il False "1.prems" by simp
    moreover have "{fst (seams ! j) | j. i \<le> j \<and> j \<le> i1 \<and> 0 < j \<and> snd (seams ! j) = snd (seams ! (j - 1))} =
        {fst (seams ! j) | j. j = i \<and> 0 < j \<and> snd (seams ! j) = snd (seams ! (j - 1))} \<union>
        {fst (seams ! j) | j. Suc i \<le> j \<and> j \<le> i1 \<and> 0 < j \<and> snd (seams ! j) = snd (seams ! (j - 1))}"
      using "1.prems"(1) by (auto simp: Suc_le_eq le_less)
    ultimately show ?thesis
      unfolding eq set_append using cur by simp
  qed
qed

lemma seams_erase_tab: "seams_erase (tab h ks) k = tab h (remove1 k ks)"
  by (induction ks) (auto simp: tab_def)

lemma foldl_seams_erase_tab:
  "foldl seams_erase (tab h ks) rs = tab h (foldl (\<lambda>ks k. remove1 k ks) ks rs)"
  by (induction rs arbitrary: ks) (simp_all add: seams_erase_tab)

lemma sorted_wrt_less_distinct: "sorted_wrt (<) (ks :: int list) \<Longrightarrow> distinct ks"
  by (induction ks) auto

lemma sorted_wrt_remove1: "sorted_wrt (<) (ks :: int list) \<Longrightarrow> sorted_wrt (<) (remove1 k ks)"
  by (induction ks) (auto dest: notin_set_remove1)

lemma erase_keys:
  fixes ks :: "int list"
  assumes "sorted_wrt (<) ks"
  shows "sorted_wrt (<) (foldl (\<lambda>ks k. remove1 k ks) ks rs) \<and>
         set (foldl (\<lambda>ks k. remove1 k ks) ks rs) = set ks - set rs"
  using assms
proof (induction rs arbitrary: ks)
  case Nil
  then show ?case by simp
next
  case (Cons r rs)
  have s: "sorted_wrt (<) (remove1 r ks)" using Cons.prems by (rule sorted_wrt_remove1)
  have "set (remove1 r ks) = set ks - {r}"
    using sorted_wrt_less_distinct [OF Cons.prems] by (rule set_remove1_eq)
  with Cons.IH [OF s] show ?case by auto
qed

lemma drop_empty_front_tab: "drop_empty_front (tab h ks) = tab h (dropWhile (\<lambda>k. h k = []) ks)"
  by (induction ks) (auto simp: tab_def)

lemma nth_less_iff:
  fixes ks :: "int list"
  assumes "sorted_wrt (<) ks" and "m < length ks" and "j < length ks"
  shows "ks ! m < ks ! j \<longleftrightarrow> m < j"
proof
  assume "m < j"
  then show "ks ! m < ks ! j" using assms by (simp add: sorted_wrt_iff_nth_less)
next
  assume a: "ks ! m < ks ! j"
  show "m < j"
  proof (rule ccontr)
    assume "\<not> m < j"
    then have "j = m \<or> j < m" by auto
    then have "ks ! j \<le> ks ! m"
      using assms by (auto simp: sorted_wrt_iff_nth_less less_imp_le)
    with a show False by simp
  qed
qed

lemma adjacent_gap:
  fixes ks :: "int list"
  assumes "sorted_wrt (<) ks" and "0 < j" and "j < length ks" and "x \<in> set ks"
  shows "x < ks ! j \<longleftrightarrow> x \<le> ks ! (j - 1)"
proof -
  from assms(4) obtain m where m: "m < length ks" "ks ! m = x" by (auto simp: in_set_conv_nth)
  have jl: "j - 1 < length ks" using assms(3) by simp
  have "x < ks ! j \<longleftrightarrow> m < j" using nth_less_iff [OF assms(1) m(1) assms(3)] m(2) by simp
  also have "\<dots> \<longleftrightarrow> \<not> j - 1 < m" using assms(2) by auto
  also have "\<dots> \<longleftrightarrow> \<not> ks ! (j - 1) < x" using nth_less_iff [OF assms(1) jl m(1)] m(2) by simp
  finally show ?thesis by auto
qed

text \<open>A seam repeats the list of the seam before it exactly when no event starts or ends there.\<close>

lemma adjacent_cov:
  assumes "sorted_wrt (<) ks" and "endpoints ord \<subseteq> set ks" and "\<forall>e\<in>set ord. 0 < getDuration e"
    and "0 < j" and "j < length ks"
  shows "cov ord (ks ! j) = cov ord (ks ! (j - 1)) \<longleftrightarrow> ks ! j \<notin> endpoints ord"
proof
  assume no: "ks ! j \<notin> endpoints ord"
  have "covers (ks ! j) e = covers (ks ! (j - 1)) e" if "e \<in> set ord" for e
  proof -
    from endpoints_mem [OF that] assms(2)
    have f: "getFrame e \<in> set ks" and b: "getFrame e + getDuration e \<in> set ks" by auto
    have "getFrame e \<noteq> ks ! j" "getFrame e + getDuration e \<noteq> ks ! j"
      using endpoints_mem [OF that] no by auto
    then show ?thesis
      using adjacent_gap [OF assms(1,4,5) f] adjacent_gap [OF assms(1,4,5) b]
      by (auto simp: covers_def)
  qed
  then show "cov ord (ks ! j) = cov ord (ks ! (j - 1))"
    unfolding cov_def by (auto intro: filter_cong)
next
  assume eq: "cov ord (ks ! j) = cov ord (ks ! (j - 1))"
  show "ks ! j \<notin> endpoints ord"
  proof
    assume "ks ! j \<in> endpoints ord"
    then obtain e where e: "e \<in> set ord" "ks ! j = getFrame e \<or> ks ! j = getFrame e + getDuration e"
      by (auto simp: endpoints_def)
    have d: "0 < getDuration e" using assms(3) e(1) by simp
    from endpoints_mem [OF e(1)] assms(2) have f: "getFrame e \<in> set ks" by auto
    have jl: "j - 1 < length ks" using assms(5) by simp
    have below: "ks ! (j - 1) < ks ! j"
      using nth_less_iff [OF assms(1) jl assms(5)] assms(4) by simp
    have "covers (ks ! j) e \<noteq> covers (ks ! (j - 1)) e"
    proof (cases "ks ! j = getFrame e")
      case True
      then show ?thesis using d below by (simp add: covers_def)
    next
      case False
      with e(2) have b: "ks ! j = getFrame e + getDuration e" by simp
      have "getFrame e < ks ! j" using b d by simp
      then have "getFrame e \<le> ks ! (j - 1)" using adjacent_gap [OF assms(1,4,5) f] by simp
      then show ?thesis using b below by (simp add: covers_def)
    qed
    then have "(e \<in> set (cov ord (ks ! j))) \<noteq> (e \<in> set (cov ord (ks ! (j - 1))))"
      using e(1) by (simp add: cov_def)
    with eq show False by simp
  qed
qed

text \<open>The first seam of a tidy map is never empty.\<close>

lemma dropWhile_front:
  assumes "sorted_wrt (<) ks" and "set ks = endpoints ord" and "\<forall>e\<in>set ord. 0 < getDuration e"
  shows "dropWhile (\<lambda>k. cov ord k = []) ks = ks"
proof (cases ks)
  case Nil
  then show ?thesis by simp
next
  case (Cons k rest)
  have least: "\<forall>x\<in>set ks. k \<le> x" using assms(1) Cons by auto
  have "k \<in> endpoints ord" using assms(2) Cons by auto
  then obtain e where e: "e \<in> set ord" "k = getFrame e \<or> k = getFrame e + getDuration e"
    by (auto simp: endpoints_def)
  have d: "0 < getDuration e" using assms(3) e(1) by simp
  have "getFrame e \<in> set ks" using endpoints_mem [OF e(1)] assms(2) by simp
  then have "k \<le> getFrame e" using least by simp
  with e(2) d have "k = getFrame e" by auto
  then have "covers k e" using d by (simp add: covers_def)
  then have "cov ord k \<noteq> []" using e(1) by (auto simp: cov_def filter_empty_conv)
  then show ?thesis using Cons by simp
qed

lemma remove_seams_tab:
  assumes srt: "sorted_wrt (<) ks" and keys: "set ks = endpoints ord"
    and dur: "\<forall>e\<in>set ord. 0 < getDuration e" and mem: "p \<in> set ord"
    and i0: "i0 = seams_find (tab (cov ord) ks) (getFrame p)"
    and i1: "i1 = seams_find (tab (cov ord) ks) (getFrame p + getDuration p)"
    and ord': "ord' = filter (\<lambda>e. e \<noteq> p) ord"
  shows "\<exists>seams ks'.
           seams_update_range (filter (\<lambda>e. e \<noteq> p)) (tab (cov ord) ks) i0 i1 = (seams, False) \<and>
           sorted_wrt (<) ks' \<and> set ks' = endpoints ord' \<and>
           drop_empty_front (foldl seams_erase seams
               (redundant_keys seams (if i0 \<noteq> 0 then Some (i0 - 1) else None) i0 i1))
             = tab (cov ord') ks'"
proof -
  let ?f = "getFrame p" and ?b = "getFrame p + getDuration p"
  have fin: "?f \<in> set ks" and bin: "?b \<in> set ks"
    using endpoints_mem [OF mem] keys by simp_all
  have lt: "?f < ?b" using dur mem by simp
  have i0k: "i0 = key_index ks ?f" and i1k: "i1 = key_index ks ?b"
    using i0 i1 fin bin by (simp_all add: seams_find_tab [OF srt])
  have i0l: "i0 < length ks" and i0n: "ks ! i0 = ?f"
    using key_index_mem [OF srt fin] i0k by simp_all
  have i1l: "i1 < length ks" and i1n: "ks ! i1 = ?b"
    using key_index_mem [OF srt bin] i1k by simp_all
  have i01: "i0 < i1" using nth_less_iff [OF srt i0l i1l] i0n i1n lt by simp
  have upd: "seams_update_range (filter (\<lambda>e. e \<noteq> p)) (tab (cov ord) ks) i0 i1 = (tab (cov ord') ks, False)"
    unfolding i0 i1 ord' seams_update_range_tab [OF srt fin bin lt] cov_remove ..
  have sub: "endpoints ord' \<subseteq> set ks" unfolding ord' keys by (auto simp: endpoints_def)
  have dur': "\<forall>e\<in>set ord'. 0 < getDuration e" using dur by (simp add: ord')
  let ?red = "redundant_keys (tab (cov ord') ks) (if i0 \<noteq> 0 then Some (i0 - 1) else None) i0 i1"
  have "set ?red = {fst (tab (cov ord') ks ! j) | j. i0 \<le> j \<and> j \<le> i1 \<and> 0 < j \<and>
          snd (tab (cov ord') ks ! j) = snd (tab (cov ord') ks ! (j - 1))}"
    by (rule redundant_keys_set) (use i01 i1l in auto)
  also have "\<dots> = {ks ! j | j. i0 \<le> j \<and> j \<le> i1 \<and> 0 < j \<and> ks ! j \<notin> endpoints ord'}"
  proof -
    have "(snd (tab (cov ord') ks ! j) = snd (tab (cov ord') ks ! (j - 1))) = (ks ! j \<notin> endpoints ord')
          \<and> fst (tab (cov ord') ks ! j) = ks ! j"
      if "j \<le> i1" "0 < j" for j
    proof -
      have jl: "j < length ks" "j - 1 < length ks" using that i1l by simp_all
      have a: "(cov ord' (ks ! j) = cov ord' (ks ! (j - 1))) = (ks ! j \<notin> endpoints ord')"
        by (rule adjacent_cov [OF srt sub dur' that(2) jl(1)])
      have b: "tab (cov ord') ks ! j = (ks ! j, cov ord' (ks ! j))" by (rule nth_tab [OF jl(1)])
      have c: "tab (cov ord') ks ! (j - 1) = (ks ! (j - 1), cov ord' (ks ! (j - 1)))"
        by (rule nth_tab [OF jl(2)])
      show ?thesis unfolding b c fst_conv snd_conv using a by (rule conjI [OF _ refl])
    qed
    then have "(\<exists>j. x = fst (tab (cov ord') ks ! j) \<and> i0 \<le> j \<and> j \<le> i1 \<and> 0 < j \<and>
            snd (tab (cov ord') ks ! j) = snd (tab (cov ord') ks ! (j - 1))) =
          (\<exists>j. x = ks ! j \<and> i0 \<le> j \<and> j \<le> i1 \<and> 0 < j \<and> ks ! j \<notin> endpoints ord')" for x
      by (intro iff_exI) metis
    then show ?thesis by (rule Collect_cong)
  qed
  finally have red: "set ?red = {ks ! j | j. i0 \<le> j \<and> j \<le> i1 \<and> 0 < j \<and> ks ! j \<notin> endpoints ord'}" .
  have inner: "k \<in> endpoints ord'" if "k \<in> set ks" "k \<noteq> ?f" "k \<noteq> ?b" for k
  proof -
    from that(1) keys obtain e where e: "e \<in> set ord" "k = getFrame e \<or> k = getFrame e + getDuration e"
      by (auto simp: endpoints_def)
    with that(2,3) have "e \<noteq> p" by auto
    with e show ?thesis unfolding ord' endpoints_def by auto
  qed
  define ks1 where "ks1 = foldl (\<lambda>ks k. remove1 k ks) ks ?red"
  have s1: "sorted_wrt (<) ks1" and set1: "set ks1 = set ks - set ?red"
    unfolding ks1_def using erase_keys [OF srt, of ?red] by simp_all
  have erased: "foldl seams_erase (tab (cov ord') ks) ?red = tab (cov ord') ks1"
    unfolding ks1_def by (rule foldl_seams_erase_tab)
  have bred: "?b \<in> set ?red" if "?b \<notin> endpoints ord'"
    unfolding red using that i01 i1n by (intro CollectI exI [of _ i1]) simp
  have fred: "?f \<in> set ?red" if "?f \<notin> endpoints ord'" "0 < i0"
    unfolding red using that i01 i0n by (intro CollectI exI [of _ i0]) simp
  have fkeep: "?f \<notin> set ?red" if "i0 = 0"
  proof
    assume "?f \<in> set ?red"
    then obtain j where j: "ks ! j = ?f" "j \<le> i1" "0 < j" unfolding red by auto
    then have "j < length ks" using i1l by simp
    then have "j = i0"
      using nth_less_iff [OF srt _ i0l, of j] nth_less_iff [OF srt i0l, of j] j(1) i0n
      by (metis less_irrefl linorder_neqE_nat)
    with that j(3) show False by simp
  qed
  have sub1: "endpoints ord' \<subseteq> set ks1" unfolding set1 red using sub by auto
  show ?thesis
  proof (cases "i0 = 0 \<and> ?f \<notin> endpoints ord'")
    case False
    have "set ks1 \<subseteq> endpoints ord'"
    proof
      fix k assume k: "k \<in> set ks1"
      then have kk: "k \<in> set ks" "k \<notin> set ?red" unfolding set1 by simp_all
      show "k \<in> endpoints ord'"
      proof (rule ccontr)
        assume n: "k \<notin> endpoints ord'"
        then have "k = ?f \<or> k = ?b" using inner [OF kk(1)] by blast
        then show False
        proof
          assume "k = ?f"
          with n False have "0 < i0" by auto
          with fred n \<open>k = ?f\<close> kk(2) show False by simp
        next
          assume "k = ?b"
          with bred n kk(2) show False by simp
        qed
      qed
    qed
    with sub1 have set1': "set ks1 = endpoints ord'" by auto
    have "drop_empty_front (tab (cov ord') ks1) = tab (cov ord') ks1"
      unfolding drop_empty_front_tab dropWhile_front [OF s1 set1' dur'] ..
    with upd erased s1 set1' show ?thesis by auto
  next
    case True
    then have z: "i0 = 0" and nf: "?f \<notin> endpoints ord'" by simp_all
    have f1: "?f \<in> set ks1" unfolding set1 using fin fkeep [OF z] by simp
    have least: "\<forall>x\<in>set ks. ?f \<le> x"
    proof
      fix x assume "x \<in> set ks"
      then obtain m where m: "m < length ks" "ks ! m = x" by (auto simp: in_set_conv_nth)
      have "\<not> m < i0" using z by simp
      then have "\<not> ks ! m < ks ! i0" using nth_less_iff [OF srt m(1) i0l] by simp
      then show "?f \<le> x" using m(2) i0n by simp
    qed
    obtain rest where rest: "ks1 = ?f # rest"
    proof (cases ks1)
      case Nil
      with f1 show ?thesis by simp
    next
      case (Cons a r)
      have "\<forall>x\<in>set ks1. a \<le> x" using s1 Cons by auto
      with f1 have "a \<le> ?f" by simp
      moreover have "a \<in> set ks" using Cons set1 by auto
      with least have "?f \<le> a" by simp
      ultimately show ?thesis using Cons that by simp
    qed
    have sr: "sorted_wrt (<) rest" and nr: "?f \<notin> set rest" using s1 rest by auto
    have "set rest = endpoints ord'"
    proof
      show "set rest \<subseteq> endpoints ord'"
      proof
        fix k assume k: "k \<in> set rest"
        then have kk: "k \<in> set ks" "k \<notin> set ?red" "k \<noteq> ?f"
          using rest set1 nr by auto
        show "k \<in> endpoints ord'"
        proof (rule ccontr)
          assume n: "k \<notin> endpoints ord'"
          then have "k = ?b" using inner [OF kk(1)] kk(3) by blast
          with bred n kk(2) show False by simp
        qed
      qed
      show "endpoints ord' \<subseteq> set rest" using sub1 rest nf by auto
    qed
    note setr = this
    have "cov ord' ?f = []"
    proof -
      have "\<not> covers ?f e" if "e \<in> set ord'" for e
      proof -
        have "getFrame e \<in> set ks" using endpoints_mem [OF that] sub by auto
        then have "?f \<le> getFrame e" using least by simp
        moreover have "getFrame e \<noteq> ?f" using endpoints_mem [OF that] nf by auto
        ultimately show ?thesis by (simp add: covers_def)
      qed
      then show ?thesis by (simp add: cov_def)
    qed
    then have "drop_empty_front (tab (cov ord') ks1) = tab (cov ord') rest"
      unfolding drop_empty_front_tab rest using dropWhile_front [OF sr setr dur'] by simp
    with upd erased sr setr show ?thesis by auto
  qed
qed

subsection \<open>Removal keeps the invariant\<close>

lemma remove_absent: "p \<notin> set (m_events s) \<Longrightarrow> remove s p = Inr s"
proof -
  assume "p \<notin> set (m_events s)"
  from lower_bound_absent [OF this] events_lower_bound_le [of "m_events s" p]
  have "events_lower_bound (m_events s) p = length (m_events s) \<or>
        m_events s ! events_lower_bound (m_events s) p \<noteq> p" by auto
  then show ?thesis by (auto simp: remove_def Let_def)
qed

lemma remove_unchanged:
  assumes "i = events_lower_bound (m_events s) p" and "i < length (m_events s)"
    and "m_events s ! i = p"
    and "\<not> (eventHasDuration p \<and> \<not> (Suc i \<noteq> length (m_events s) \<and> m_events s ! Suc i = p))"
  shows "\<exists>s'. remove s p = Inr s' \<and>
           m_events s' = take i (m_events s) @ drop (Suc i) (m_events s) \<and> m_seams s' = m_seams s"
  using assms by (auto simp: remove_def Let_def)

lemma remove_changed:
  assumes "i = events_lower_bound (m_events s) p" and "i < length (m_events s)"
    and "m_events s ! i = p" and "eventHasDuration p"
    and "\<not> (Suc i \<noteq> length (m_events s) \<and> m_events s ! Suc i = p)"
    and "i0 = seams_find (m_seams s) (getFrame p)"
    and "i1 = seams_find (m_seams s) (getFrame p + getDuration p)"
    and "seams_update_range (filter (\<lambda>e. e \<noteq> p)) (m_seams s) i0 i1 = (seams, False)"
    and "valid_event p"
  shows "\<exists>s'. remove s p = Inr s' \<and>
           m_events s' = take i (m_events s) @ drop (Suc i) (m_events s) \<and>
           m_seams s' = drop_empty_front (foldl seams_erase seams
             (redundant_keys seams (if i0 \<noteq> 0 then Some (i0 - 1) else None) i0 i1))"
  using assms(1-8) by (auto simp: remove_def Let_def end_frame_representable [OF assms(9)])

lemma series_inv_remove:
  assumes "series_inv s"
  shows "\<exists>s'. remove s p = Inr s' \<and> series_inv s' \<and> mset (m_events s') = mset (m_events s) - {#p#}"
proof (cases "p \<in> set (m_events s)")
  case False
  then have "mset (m_events s) - {#p#} = mset (m_events s)" by simp
  with remove_absent [OF False] assms show ?thesis by simp
next
  case True
  from assms have srt: "sorted (map event_key (m_events s))"
    and val: "\<forall>e\<in>set (m_events s). valid_event e" and si: "seam_inv s"
    by (simp_all add: series_inv_def)
  define i where "i = events_lower_bound (m_events s) p"
  define evs where "evs = take i (m_events s) @ drop (Suc i) (m_events s)"
  have il: "i < length (m_events s)" and ip: "m_events s ! i = p"
    using lower_bound_finds [OF srt True] by (simp_all add: i_def)
  have ms: "mset evs = mset (m_events s) - {#p#}"
    unfolding evs_def using mset_erase_at [OF il] ip by simp
  have srt': "sorted (map event_key evs)" unfolding evs_def by (rule sorted_erase_at [OF srt])
  have "m_events s = take i (m_events s) @ p # drop (Suc i) (m_events s)"
    using id_take_nth_drop [OF il] ip by simp
  then have "set (m_events s) = set (take i (m_events s)) \<union> insert p (set (drop (Suc i) (m_events s)))"
    by (metis set_append list.simps(15))
  then have sets: "set (m_events s) = insert p (set evs)" unfolding evs_def by auto
  have val': "\<forall>e\<in>set evs. valid_event e" using val sets by auto
  have uniq: "(Suc i \<noteq> length (m_events s) \<and> m_events s ! Suc i = p) \<longleftrightarrow> p \<in> set evs"
    unfolding evs_def by (rule next_instance [OF srt i_def il ip])
  from si obtain ord ks where o: "distinct ord"
    "set ord = {e \<in> set (m_events s). eventHasDuration e}"
    "sorted_wrt (<) ks" "set ks = endpoints ord" "m_seams s = tab (cov ord) ks"
    unfolding seam_inv_def by blast
  show ?thesis
  proof (cases "eventHasDuration p \<and> p \<notin> set evs")
    case False
    have nu: "\<not> (eventHasDuration p \<and> \<not> (Suc i \<noteq> length (m_events s) \<and> m_events s ! Suc i = p))"
      using False uniq by blast
    from remove_unchanged [OF i_def il ip nu]
    obtain s' where r: "remove s p = Inr s'" "m_events s' = evs" "m_seams s' = m_seams s"
      unfolding evs_def by blast
    have "{e \<in> set evs. eventHasDuration e} = {e \<in> set (m_events s). eventHasDuration e}"
      using False sets by auto
    then have "seam_inv s'"
      using o r(2,3) unfolding seam_inv_def by auto
    with r srt' val' ms show ?thesis by (simp add: series_inv_def)
  next
    case True
    then have hd: "eventHasDuration p" and nin: "p \<notin> set evs" by simp_all
    have nx: "\<not> (Suc i \<noteq> length (m_events s) \<and> m_events s ! Suc i = p)"
      using nin uniq by blast
    have pm: "p \<in> set ord" using o(2) hd \<open>p \<in> set (m_events s)\<close> by simp
    have dur: "\<forall>e\<in>set ord. 0 < getDuration e"
      using o(2) val by (auto simp: eventHasDuration_def valid_event_def)
    define i0 where "i0 = seams_find (m_seams s) (getFrame p)"
    define i1 where "i1 = seams_find (m_seams s) (getFrame p + getDuration p)"
    define ord' where "ord' = filter (\<lambda>e. e \<noteq> p) ord"
    from remove_seams_tab [OF o(3,4) dur pm i0_def [unfolded o(5)] i1_def [unfolded o(5)] ord'_def]
    obtain seams ks' where k:
      "seams_update_range (filter (\<lambda>e. e \<noteq> p)) (m_seams s) i0 i1 = (seams, False)"
      "sorted_wrt (<) ks'" "set ks' = endpoints ord'"
      "drop_empty_front (foldl seams_erase seams
         (redundant_keys seams (if i0 \<noteq> 0 then Some (i0 - 1) else None) i0 i1)) = tab (cov ord') ks'"
      unfolding o(5) by blast
    have vp: "valid_event p" using val \<open>p \<in> set (m_events s)\<close> by blast
    from remove_changed [OF i_def il ip hd nx i0_def i1_def k(1) vp]
    obtain s' where r: "remove s p = Inr s'" "m_events s' = evs" "m_seams s' = tab (cov ord') ks'"
      unfolding evs_def k(4) by blast
    have "distinct ord'" using o(1) by (simp add: ord'_def)
    moreover have "set ord' = {e \<in> set evs. eventHasDuration e}"
      unfolding ord'_def using o(2) sets nin by auto
    ultimately have "seam_inv s'"
      unfolding seam_inv_def using k(2,3) r(2,3) by auto
    with r srt' val' ms show ?thesis by (simp add: series_inv_def)
  qed
qed

subsection \<open>Runs of add and remove\<close>

lemma series_inv_apply_op:
  assumes "series_inv s" and "valid_op x"
  shows "\<exists>s'. apply_op s x = Inr s' \<and> series_inv s' \<and>
           mset (m_events s') = (case x of Add p \<Rightarrow> add_mset p (mset (m_events s))
                                          | Remove p \<Rightarrow> mset (m_events s) - {#p#})"
proof (cases x)
  case (Add p)
  with assms series_inv_add [of s p] show ?thesis by (simp add: mset_add_events)
next
  case (Remove p)
  with series_inv_remove [OF assms(1), of p] show ?thesis by simp
qed

lemma series_inv_apply_ops:
  assumes "series_inv s" and "\<forall>x\<in>set ops. valid_op x"
  shows "\<exists>s'. apply_ops s ops = Inr s' \<and> series_inv s'"
  using assms
proof (induction ops arbitrary: s)
  case Nil
  then show ?case by simp
next
  case (Cons x ops)
  from series_inv_apply_op [OF Cons.prems(1), of x] Cons.prems(2)
  obtain s1 where s1: "apply_op s x = Inr s1" "series_inv s1" by auto
  from Cons.IH [OF s1(2)] Cons.prems(2) obtain s' where "apply_ops s1 ops = Inr s'" "series_inv s'"
    by auto
  with s1(1) show ?case by simp
qed

lemma apply_ops_append:
  "apply_ops s (xs @ ys) = (case apply_ops s xs of Inl e \<Rightarrow> Inl e | Inr s' \<Rightarrow> apply_ops s' ys)"
  by (induction xs arbitrary: s) (auto split: sum.splits)

lemma apply_adds:
  assumes "series_inv s" and "\<forall>e\<in>set xs. valid_event e"
  shows "\<exists>s'. apply_ops s (map Add xs) = Inr s' \<and> series_inv s' \<and>
           mset (m_events s') = mset (m_events s) + mset xs"
  using assms
proof (induction xs arbitrary: s)
  case Nil
  then show ?case by simp
next
  case (Cons x xs)
  have i1: "series_inv (add s x)" using Cons.prems by (simp add: series_inv_add)
  from Cons.IH [OF i1] Cons.prems(2)
  obtain s' where "apply_ops (add s x) (map Add xs) = Inr s'" "series_inv s'"
    "mset (m_events s') = mset (m_events (add s x)) + mset xs" by auto
  then show ?case by (simp add: mset_add_events)
qed

lemma apply_removes:
  assumes "series_inv s"
  shows "\<exists>s'. apply_ops s (map Remove ys) = Inr s' \<and> series_inv s' \<and>
           mset (m_events s') = mset (m_events s) - mset ys"
  using assms
proof (induction ys arbitrary: s)
  case Nil
  then show ?case by simp
next
  case (Cons y ys)
  from series_inv_remove [OF Cons.prems, of y]
  obtain s1 where s1: "remove s y = Inr s1" "series_inv s1"
    "mset (m_events s1) = mset (m_events s) - {#y#}" by blast
  from Cons.IH [OF s1(2)]
  obtain s' where "apply_ops s1 (map Remove ys) = Inr s'" "series_inv s'"
    "mset (m_events s') = mset (m_events s1) - mset ys" by blast
  with s1 show ?case by (simp add: diff_diff_add_mset)
qed

lemma series_inv_empty_seams:
  assumes "series_inv s" and "m_events s = []"
  shows "m_seams s = []"
proof -
  from assms obtain ord ks where "set ord = {}" "set ks = endpoints ord" "m_seams s = tab (cov ord) ks"
    unfolding series_inv_def seam_inv_def by auto
  then show ?thesis by (simp add: endpoints_def tab_def)
qed

subsection \<open>The stabbing query\<close>

lemma instances_subset: "set (instances events x) \<subseteq> {x}"
  unfolding instances_def using set_takeWhileD by fastforce

lemma instances_present:
  assumes "sorted (map event_key events)" and "E \<in> set events"
  shows "E \<in> set (instances events E)"
proof -
  let ?i = "events_lower_bound events E"
  from lower_bound_finds [OF assms] have "?i < length events" "events ! ?i = E" by simp_all
  then have "drop ?i events = E # drop (Suc ?i) events"
    using Cons_nth_drop_Suc [of ?i events] by simp
  then show ?thesis by (simp add: instances_def)
qed

lemma set_found_set: "set (found_set l) = set l"
  by (simp add: found_set_def)

lemma found_tab:
  assumes "sorted_wrt (<) ks" and "endpoints ord \<subseteq> set ks"
  shows "(let sitr = seams_lower_bound (tab (cov ord) ks) q;
              sitr = (if sitr = length (tab (cov ord) ks) \<or> fst (tab (cov ord) ks ! sitr) > q
                      then (if sitr \<noteq> 0 then sitr - 1 else sitr) else sitr)
          in if sitr \<noteq> length (tab (cov ord) ks) \<and> fst (tab (cov ord) ks ! sitr) \<le> q
             then found_set (snd (tab (cov ord) ks ! sitr)) else []) = found_set (cov ord q)"
proof (cases "q \<in> set ks")
  case True
  from key_index_mem [OF assms(1) True] show ?thesis
    by (simp add: seams_lower_bound_tab Let_def)
next
  case False
  let ?i = "key_index ks q"
  have above: "?i < length ks \<Longrightarrow> q < ks ! ?i"
  proof -
    assume l: "?i < length ks"
    then have "q \<le> ks ! ?i" using key_index_above [OF assms(1) _ l, of q] by simp
    moreover have "ks ! ?i \<in> set ks" using l by (rule nth_mem)
    ultimately show "q < ks ! ?i" using False by (cases "q = ks ! ?i") auto
  qed
  show ?thesis
  proof (cases "?i = 0")
    case True
    have e: "cov ord q = []" by (rule cov_empty_below_all [OF assms False True])
    have "ks = [] \<or> q < ks ! 0" using above True by (cases ks) auto
    then show ?thesis
      using True by (auto simp: seams_lower_bound_tab Let_def e found_set_def)
  next
    case nz: False
    then have pos: "0 < ?i" by simp
    have il: "?i - 1 < length ks" using pos key_index_le [of ks q] by simp
    have below: "ks ! (?i - 1) < q" using key_index_below [of "?i - 1" ks q] pos by simp
    have c: "cov ord (ks ! (?i - 1)) = cov ord q" by (rule cov_copy_below [OF assms False pos])
    have cond: "?i = length ks \<or> q < ks ! ?i"
    proof (cases "?i < length ks")
      case True
      then show ?thesis using above by simp
    next
      case False
      then show ?thesis using key_index_le [of ks q] by simp
    qed
    have "(let sitr = ?i;
              sitr = (if sitr = length ks \<or> fst (tab (cov ord) ks ! sitr) > q
                      then (if sitr \<noteq> 0 then sitr - 1 else sitr) else sitr)
          in if sitr \<noteq> length ks \<and> fst (tab (cov ord) ks ! sitr) \<le> q
             then found_set (snd (tab (cov ord) ks ! sitr)) else []) =
          found_set (snd (tab (cov ord) ks ! (?i - 1)))"
    proof (cases "?i = length ks")
      case True
      then have "0 < length ks" using pos by simp
      then have "length ks - 1 \<noteq> length ks" "length ks \<noteq> 0" by arith+
      with True show ?thesis using below by (simp add: Let_def)
    next
      case False
      with cond key_index_le [of ks q] have "?i < length ks" "q < ks ! ?i" by auto
      then show ?thesis using nz il below by (simp add: Let_def)
    qed
    then show ?thesis using il c by (simp add: seams_lower_bound_tab)
  qed
qed

lemma covering_iff:
  assumes "series_inv s" and "E \<in> set (m_events s)" and "0 < getDuration E"
  shows "E \<in> set (getEventsCovering s q) \<longleftrightarrow> getFrame E \<le> q \<and> q < getFrame E + getDuration E"
proof -
  from assms(1) have srt: "sorted (map event_key (m_events s))" and si: "seam_inv s"
    by (simp_all add: series_inv_def)
  from si obtain ord ks where o: "set ord = {e \<in> set (m_events s). eventHasDuration e}"
    "sorted_wrt (<) ks" "set ks = endpoints ord" "m_seams s = tab (cov ord) ks"
    unfolding seam_inv_def by blast
  have hd: "eventHasDuration E" using assms(3) by (simp add: eventHasDuration_def)
  then have eo: "E \<in> set ord" using o(1) assms(2) by simp
  have sub: "endpoints ord \<subseteq> set ks" using o(3) by simp
  define cover where "cover = filter (\<lambda>e. \<not> eventHasDuration e)
       (takeWhile (\<lambda>e. getFrame e = q) (drop (events_lower_bound (m_events s) (Event_at q)) (m_events s)))"
  have g: "getEventsCovering s q = cover @ concat (map (instances (m_events s)) (found_set (cov ord q)))"
    unfolding getEventsCovering_def Let_def o(4) cover_def
    by (simp only: found_tab [OF o(2) sub, of q, unfolded Let_def])
  have nc: "E \<notin> set cover" using hd by (simp add: cover_def)
  have "E \<in> set (concat (map (instances (m_events s)) (found_set (cov ord q)))) \<longleftrightarrow> E \<in> set (cov ord q)"
  proof
    assume "E \<in> set (concat (map (instances (m_events s)) (found_set (cov ord q))))"
    then obtain x where x: "x \<in> set (found_set (cov ord q))" "E \<in> set (instances (m_events s) x)"
      by auto
    with instances_subset [of "m_events s" x] have "E = x" by auto
    with x(1) show "E \<in> set (cov ord q)" by (simp add: set_found_set)
  next
    assume "E \<in> set (cov ord q)"
    then have "E \<in> set (found_set (cov ord q))" by (simp add: set_found_set)
    with instances_present [OF srt assms(2)] show
      "E \<in> set (concat (map (instances (m_events s)) (found_set (cov ord q))))" by auto
  qed
  then have "E \<in> set (getEventsCovering s q) \<longleftrightarrow> E \<in> set (cov ord q)"
    using g nc by simp
  also have "\<dots> \<longleftrightarrow> covers q E" using eo by (simp add: cov_def)
  finally show ?thesis by (simp add: covers_def)
qed

text \<open>
  Claim C1. Start from an empty series and run any sequence of \<open>add\<close> and \<open>remove\<close> calls
  in which every added event has a duration that is not negative (as the constructor of
  \<open>Event\<close> guarantees) and a frame and an end frame within \<open>sv_frame_t\<close>, that is
  \<open>-2^63 \<le> frame\<close> and \<open>frame + duration < 2^63\<close>. The run never throws, and in the series it leaves every event \<open>E\<close> with
  frame \<open>f\<close> and duration \<open>d > 0\<close> is returned by \<open>getEventsCovering(p)\<close> for every \<open>p\<close>
  with \<open>f \<le> p < f + d\<close>, and is not returned for \<open>p = f + d\<close>.
\<close>

theorem C1_seam_coherence:
  assumes "\<forall>x\<in>set ops. valid_op x"
  shows "\<exists>s. apply_ops EventSeries_new ops = Inr s \<and>
           (\<forall>E\<in>set (m_events s). 0 < getDuration E \<longrightarrow>
              (\<forall>p. getFrame E \<le> p \<and> p < getFrame E + getDuration E \<longrightarrow>
                     E \<in> set (getEventsCovering s p)) \<and>
              E \<notin> set (getEventsCovering s (getFrame E + getDuration E)))"
proof -
  from series_inv_apply_ops [OF series_inv_new assms]
  obtain s where s: "apply_ops EventSeries_new ops = Inr s" "series_inv s" by blast
  have "(\<forall>p. getFrame E \<le> p \<and> p < getFrame E + getDuration E \<longrightarrow> E \<in> set (getEventsCovering s p)) \<and>
        E \<notin> set (getEventsCovering s (getFrame E + getDuration E))"
    if "E \<in> set (m_events s)" "0 < getDuration E" for E
    using covering_iff [OF s(2) that] by simp
  with s(1) show ?thesis by blast
qed

text \<open>
  Claim C2. For any list \<open>xs\<close> of events (any multiset, in any order) whose durations are
  not negative and whose frames and end frames lie within \<open>sv_frame_t\<close>
  (\<open>-2^63 \<le> frame\<close>, \<open>frame + duration < 2^63\<close>), adding them in this order to an empty
  series and then removing them in the reverse order leaves no stored event and an empty
  seam map.
\<close>

theorem C2_add_remove_round_trip:
  assumes "\<forall>e\<in>set xs. valid_event e"
  shows "\<exists>s. apply_ops EventSeries_new (map Add xs @ map Remove (rev xs)) = Inr s \<and>
           m_events s = [] \<and> m_seams s = []"
proof -
  from apply_adds [OF series_inv_new assms]
  obtain s1 where s1: "apply_ops EventSeries_new (map Add xs) = Inr s1" "series_inv s1"
    "mset (m_events s1) = mset (m_events EventSeries_new) + mset xs" by blast
  from apply_removes [OF s1(2), of "rev xs"]
  obtain s2 where s2: "apply_ops s1 (map Remove (rev xs)) = Inr s2" "series_inv s2"
    "mset (m_events s2) = mset (m_events s1) - mset (rev xs)" by blast
  have "mset (m_events s2) = {#}" using s1(3) s2(3) by (simp add: EventSeries_new_def)
  then have e: "m_events s2 = []" by simp
  from series_inv_empty_seams [OF s2(2) e] have "m_seams s2 = []" .
  with e s1(1) s2(1) show ?thesis by (simp add: apply_ops_append)
qed

theorem C1_seam_coherence_witness:
  "\<exists>s. apply_ops EventSeries_new (map Add [ev 100 50, ev 120 40]) = Inr s \<and>
        ev 100 50 \<in> set (getEventsCovering s 130) \<and>
        ev 100 50 \<notin> set (getEventsCovering s 150)"
proof -
  let ?xs = "[ev 100 50, ev 120 40]"
  have v: "\<forall>x\<in>set (map Add ?xs). valid_op x" by (simp add: valid_event_def ev_def)
  have v': "\<forall>e\<in>set ?xs. valid_event e" by (simp add: valid_event_def ev_def)
  from C1_seam_coherence [OF v] obtain s where s: "apply_ops EventSeries_new (map Add ?xs) = Inr s"
    and c: "\<forall>E\<in>set (m_events s). 0 < getDuration E \<longrightarrow>
              (\<forall>p. getFrame E \<le> p \<and> p < getFrame E + getDuration E \<longrightarrow>
                     E \<in> set (getEventsCovering s p)) \<and>
              E \<notin> set (getEventsCovering s (getFrame E + getDuration E))" by blast
  from apply_adds [OF series_inv_new v'] s have "mset (m_events s) = mset ?xs"
    by (auto simp: EventSeries_new_def)
  then have "set (m_events s) = set ?xs" by (metis set_mset_mset)
  then have m: "ev 100 50 \<in> set (m_events s)" by simp
  have d: "0 < getDuration (ev 100 50)" "getFrame (ev 100 50) = 100" "getDuration (ev 100 50) = 50"
    by (simp_all add: ev_def)
  from c m d have "ev 100 50 \<in> set (getEventsCovering s 130)"
    and "ev 100 50 \<notin> set (getEventsCovering s (100 + 50))" by auto
  with s show ?thesis by auto
qed

theorem C2_add_remove_round_trip_witness:
  "\<exists>s. apply_ops EventSeries_new
          (map Add [ev 100 50, ev 120 40, ev 200 0] @ map Remove (rev [ev 100 50, ev 120 40, ev 200 0]))
        = Inr s \<and> m_events s = [] \<and> m_seams s = []"
  using C2_add_remove_round_trip [of "[ev 100 50, ev 120 40, ev 200 0]"]
  by (simp add: valid_event_def ev_def)

end
